theory Spec2Isabelle
  imports Complex_Main "HOL-Library.Log_Nat" "HOL-Library.Multiset" "HOL-Library.Sublist"
begin

section \<open>Lost-token scanner: the balance-scanning engine of \<open>functions.js\<close>\<close>

text \<open>
  The development embeds the functions of \<open>functions.js\<close> that query ERC-20 balances
  over a pool of RPC-backed workers, aggregate them into records and render the report.
  JavaScript \<open>BigInt\<close> values are \<open>int\<close>, strings are \<open>string\<close>, arrays are lists.
  Everything the module imports from \<open>./const\<close> (the ABIs, \<open>ethRpcArray\<close>,
  \<open>excludedMap\<close>) and the chain selected from the process environment are parameters.
\<close>

subsection \<open>Contract handles and the balance query\<close>

type_synonym address = string

text \<open>
  A worker's \<open>token\<close> is a web3 contract object: the RPC endpoint its provider talks to
  and the token contract it is bound to.
\<close>

datatype token_contract = Contract (provider: string) (target: address)

type_synonym call = "token_contract \<times> address"

text \<open>
  The network, as one query sees it: the outcome of
  \<open>token.methods.balanceOf(address).call(...)\<close> when \<open>n\<close> calls have been issued before
  it. \<open>None\<close> is a rejected promise (any failure), \<open>Some b\<close> the balance it resolved to.
\<close>

type_synonym node = "token_contract \<Rightarrow> address \<Rightarrow> nat \<Rightarrow> int option"

text \<open>
  \<open>getBalanceOf\<close> (lines 148-153): the rejection handler calls \<open>getBalanceOf\<close> again with
  the same arguments. The result carries the calls issued so far. The recursion has no
  bound, so the function is partial: \<open>None\<close> means that the promise never settles.
  The \<open>console.error\<close> line of the handler is not part of the model.
\<close>

partial_function (option) getBalanceOf ::
  "node \<Rightarrow> token_contract \<Rightarrow> address \<Rightarrow> call list \<Rightarrow> (int \<times> call list) option" where
  "getBalanceOf balanceOf token address issued =
     (case balanceOf token address (length issued) of
        Some balance \<Rightarrow> Some (balance, issued @ [(token, address)])
      | None \<Rightarrow> getBalanceOf balanceOf token address (issued @ [(token, address)]))"


subsection \<open>The task distributor\<close>

text \<open>
  A worker (lines 242 and 245) is a contract handle and the \<open>isBusy\<close> flag.
\<close>

record worker =
  token :: token_contract
  isBusy :: bool

text \<open>
  \<open>completedTasks\<close> holds one promise per launched task, in launch order. A promise
  records the index of the worker that serves it, the address queried, the number of
  \<open>balanceOf\<close> calls issued for it so far and, once \<open>getBalanceOf\<close> has resolved, the
  balance.
\<close>

record promise =
  worker_index :: nat
  task_address :: address
  attempts :: nat
  settled :: "int option"

text \<open>
  JavaScript runs \<open>distributeTasks\<close> (lines 164-182) as a coroutine that gives up control
  at each \<open>await\<close>. The program counter says where it waits:
  \<^item> \<open>Resume i\<close>: \<open>findAvailableWorker\<close> has resolved with index \<open>i\<close>, the continuation
    of the \<open>await\<close> on line 170 has not run yet;
  \<^item> \<open>Sleeping\<close>: no worker was idle, \<open>setTimeout(checkAvailability, 10)\<close> is pending;
  \<^item> \<open>Joining\<close>: the loop has ended, \<open>Promise.all\<close> on line 181 is awaited;
  \<^item> \<open>Returned balances\<close>: \<open>distributeTasks\<close> has resolved.
\<close>

datatype pc = Resume nat | Sleeping | Joining | Returned "int list"

record dist =
  workers :: "worker list"
  taskQueue :: "address list"
  completedTasks :: "promise list"
  pc :: pc
  balanceOf_calls :: "call list"

text \<open>
  What the event loop can run next:
  \<^item> \<open>Wake\<close>: the continuation of the \<open>await\<close> on line 170;
  \<^item> \<open>Timer\<close>: the timeout of line 199 fires;
  \<^item> \<open>Reply k r\<close>: the pending \<open>balanceOf\<close> call of promise \<open>k\<close> settles, rejected
    (\<open>None\<close>) or fulfilled with a balance;
  \<^item> \<open>Join\<close>: the continuation of the \<open>await\<close> on line 181.
  A run of \<open>distributeTasks\<close> is a list of events; the order of the events is the order
  in which timers fire and queries complete, and is not under the program's control.
\<close>

datatype event = Wake | Timer | Reply nat "int option" | Join

text \<open>\<open>Array.prototype.findIndex\<close>, with \<open>None\<close> for \<open>-1\<close>.\<close>

fun findIndex :: "('a \<Rightarrow> bool) \<Rightarrow> 'a list \<Rightarrow> nat option" where
  "findIndex P [] = None"
| "findIndex P (x # xs) = (if P x then Some 0 else map_option Suc (findIndex P xs))"

text \<open>
  \<open>checkAvailability\<close> (lines 193-201): resolve with the first idle worker, or set the
  timer.
\<close>

definition checkAvailability :: "dist \<Rightarrow> dist" where
  "checkAvailability s =
     (case findIndex (\<lambda>worker. \<not> isBusy worker) (workers s) of
        Some index \<Rightarrow> s\<lparr>pc := Resume index\<rparr>
      | None \<Rightarrow> s\<lparr>pc := Sleeping\<rparr>)"

text \<open>
  The loop test of line 168 followed by the call of \<open>findAvailableWorker\<close>, which runs
  \<open>checkAvailability\<close> at once; with an empty queue the loop ends and line 181 awaits.
\<close>

definition loop_head :: "dist \<Rightarrow> dist" where
  "loop_head s = (if taskQueue s \<noteq> [] then checkAvailability s else s\<lparr>pc := Joining\<rparr>)"

text \<open>
  \<open>executeTask\<close> (lines 216-226) up to its first suspension: the worker is marked busy,
  \<open>getBalanceOf\<close> issues its first \<open>balanceOf\<close> call, and line 177 pushes the promise.
\<close>

definition executeTask :: "nat \<Rightarrow> address \<Rightarrow> dist \<Rightarrow> dist" where
  "executeTask i address s =
     s\<lparr>workers := (workers s)[i := (workers s ! i)\<lparr>isBusy := True\<rparr>],
       completedTasks := completedTasks s @
          [\<lparr>worker_index = i, task_address = address, attempts = 1, settled = None\<rparr>],
       balanceOf_calls := balanceOf_calls s @ [(token (workers s ! i), address)]\<rparr>"

text \<open>
  The state in which the call \<open>distributeTasks(workers, contractList)\<close> first suspends:
  \<open>taskQueue\<close> is a copy of the list, nothing is launched.
\<close>

definition distributeTasks_start :: "worker list \<Rightarrow> address list \<Rightarrow> dist" where
  "distributeTasks_start pool contractList =
     loop_head \<lparr>workers = pool, taskQueue = contractList, completedTasks = [],
                pc = Joining, balanceOf_calls = []\<rparr>"

text \<open>
  One event. \<open>None\<close> means that the event cannot happen in this state.
  \<^item> \<open>Wake\<close> runs lines 172-178 (\<open>shift\<close>, \<open>executeTask\<close>, \<open>push\<close>) and goes round the
    loop to the next \<open>await\<close>.
  \<^item> \<open>Reply k None\<close> runs the rejection handler of \<open>getBalanceOf\<close> (lines 149-152): the
    same call is issued again on the same handle.
  \<^item> \<open>Reply k (Some balance)\<close> runs the continuation of lines 220-224: the worker is idle
    again and the promise resolves.
  \<^item> \<open>Join\<close> needs every promise resolved; \<open>Promise.all\<close> gives their values in the
    order of the array.
\<close>

fun step :: "event \<Rightarrow> dist \<Rightarrow> dist option" where
  "step Wake s =
     (case pc s of
        Resume i \<Rightarrow>
          (case taskQueue s of
             [] \<Rightarrow> None
           | task # rest \<Rightarrow> Some (loop_head (executeTask i task (s\<lparr>taskQueue := rest\<rparr>))))
      | _ \<Rightarrow> None)"
| "step Timer s = (case pc s of Sleeping \<Rightarrow> Some (checkAvailability s) | _ \<Rightarrow> None)"
| "step (Reply k r) s =
     (if k < length (completedTasks s) \<and> settled (completedTasks s ! k) = None then
        (let p = completedTasks s ! k in
         case r of
           None \<Rightarrow>
             Some (s\<lparr>completedTasks := (completedTasks s)[k := p\<lparr>attempts := attempts p + 1\<rparr>],
                     balanceOf_calls := balanceOf_calls s @ [(token (workers s ! worker_index p), task_address p)]\<rparr>)
         | Some balance \<Rightarrow>
             Some (s\<lparr>workers := (workers s)[worker_index p :=
                                  (workers s ! worker_index p)\<lparr>isBusy := False\<rparr>],
                     completedTasks := (completedTasks s)[k := p\<lparr>settled := Some balance\<rparr>]\<rparr>))
      else None)"
| "step Join s =
     (case pc s of
        Joining \<Rightarrow>
          (if \<forall>p \<in> set (completedTasks s). settled p \<noteq> None
           then Some (s\<lparr>pc := Returned (map (\<lambda>p. the (settled p)) (completedTasks s))\<rparr>)
           else None)
      | _ \<Rightarrow> None)"

fun exec :: "event list \<Rightarrow> dist \<Rightarrow> dist option" where
  "exec [] s = Some s"
| "exec (e # es) s = (case step e s of None \<Rightarrow> None | Some s' \<Rightarrow> exec es s')"

text \<open>The queries in flight, and those in flight on worker \<open>w\<close>.\<close>

definition inFlight :: "dist \<Rightarrow> promise list" where
  "inFlight s = filter (\<lambda>p. settled p = None) (completedTasks s)"

definition outstanding :: "dist \<Rightarrow> nat \<Rightarrow> promise list" where
  "outstanding s w = filter (\<lambda>p. worker_index p = w \<and> settled p = None) (completedTasks s)"

text \<open>
  The events that bring a distribution forward: an assignment, a successful reply and
  the final continuation. A failed reply and a timer do not. \<open>remaining\<close> counts the
  events of this kind that are still to come: two for each queued task, one for each
  query in flight, one for the return.
\<close>

fun productive :: "event \<Rightarrow> bool" where
  "productive Wake = True"
| "productive Timer = False"
| "productive (Reply k None) = False"
| "productive (Reply k (Some balance)) = True"
| "productive Join = True"

definition remaining :: "dist \<Rightarrow> nat" where
  "remaining s = 2 * length (taskQueue s) + length (inFlight s) +
                 (case pc s of Returned balances \<Rightarrow> 0 | _ \<Rightarrow> 1)"

text \<open>The invariant of a run that starts with the pool idle.\<close>

definition core :: "address list \<Rightarrow> token_contract list \<Rightarrow> dist \<Rightarrow> bool" where
  "core cl toks s \<longleftrightarrow>
     map token (workers s) = toks \<and>
     map task_address (completedTasks s) @ taskQueue s = cl \<and>
     (\<forall>p \<in> set (completedTasks s). worker_index p < length (workers s)) \<and>
     (\<forall>w < length (workers s).
        length (outstanding s w) = (if isBusy (workers s ! w) then 1 else 0)) \<and>
     length (inFlight s) = length (filter isBusy (workers s))"

definition pc_ok :: "dist \<Rightarrow> bool" where
  "pc_ok s \<longleftrightarrow>
     (case pc s of
        Resume i \<Rightarrow> i < length (workers s) \<and> \<not> isBusy (workers s ! i) \<and> taskQueue s \<noteq> []
      | Sleeping \<Rightarrow> taskQueue s \<noteq> []
      | Joining \<Rightarrow> taskQueue s = []
      | Returned rs \<Rightarrow> taskQueue s = [] \<and> map settled (completedTasks s) = map Some rs)"

definition dist_inv :: "address list \<Rightarrow> token_contract list \<Rightarrow> dist \<Rightarrow> bool" where
  "dist_inv cl toks s \<longleftrightarrow> core cl toks s \<and> pc_ok s"

subsection \<open>JavaScript numbers\<close>

text \<open>
  A JavaScript \<open>Number\<close> is an IEEE 754 double: a finite value (a rational here), an
  infinity or \<open>NaN\<close>. The sign of zero is not modelled: no operation below tells \<open>-0\<close>
  from \<open>0\<close>.
\<close>

datatype number = Num rat | PosInf | NegInf | NaN

text \<open>The exponent of the binade of a positive rational: \<open>2 ^ ilog2 a \<le> a < 2 ^ (ilog2 a + 1)\<close>.\<close>

definition ilog2 :: "rat \<Rightarrow> int" where
  "ilog2 a = (if 1 \<le> a then bitlen \<lfloor>a\<rfloor> - 1 else - bitlen (\<lceil>1 / a\<rceil> - 1))"

definition pow2 :: "int \<Rightarrow> rat" where
  "pow2 e = (if 0 \<le> e then 2 ^ nat e else 1 / 2 ^ nat (- e))"

definition round_half_even :: "rat \<Rightarrow> int" where
  "round_half_even x =
     (let f = \<lfloor>x\<rfloor>; d = x - of_int f
      in if d < 1 / 2 then f else if 1 / 2 < d then f + 1 else if even f then f else f + 1)"

text \<open>
  The double nearest to a rational, ties to the even significand: 53 significant bits,
  exponents from \<open>-1022\<close> (below that the spacing stays \<open>2 ^ -1074\<close>), and an infinity
  from \<open>2 ^ 1024\<close> on. Every arithmetic operation of JavaScript returns the exact result
  rounded this way.
\<close>

definition nearest_double :: "rat \<Rightarrow> number" where
  "nearest_double x =
     (if x = 0 then Num 0
      else let a = \<bar>x\<bar>;
               e = max (ilog2 a) (- 1022);
               ulp = pow2 (e - 52);
               r = of_int (round_half_even (a / ulp)) * ulp
           in if 2 ^ 1024 \<le> r then (if x < 0 then NegInf else PosInf)
              else Num (if x < 0 then - r else r))"

text \<open>\<open>Number(b)\<close> for a \<open>BigInt\<close> \<open>b\<close>.\<close>

definition Number_of_BigInt :: "int \<Rightarrow> number" where
  "Number_of_BigInt n = nearest_double (of_int n)"

text \<open>The exceptions that the code below can throw.\<close>

datatype error = RangeError | TypeError

text \<open>\<open>BigInt(x)\<close> for a \<open>Number\<close> \<open>x\<close>: a \<open>RangeError\<close> unless \<open>x\<close> is an integer.\<close>

definition BigInt_of_Number :: "number \<Rightarrow> error + int" where
  "BigInt_of_Number x =
     (case x of
        Num r \<Rightarrow> if r = of_int \<lfloor>r\<rfloor> then Inr \<lfloor>r\<rfloor> else Inl RangeError
      | _ \<Rightarrow> Inl RangeError)"

text \<open>\<open>a / b\<close> on \<open>BigInt\<close>: truncation towards zero, a \<open>RangeError\<close> for a zero divisor.\<close>

definition BigInt_div :: "int \<Rightarrow> int \<Rightarrow> error + int" where
  "BigInt_div a b =
     (if b = 0 then Inl RangeError else Inr (sgn a * sgn b * (\<bar>a\<bar> div \<bar>b\<bar>)))"

text \<open>
  \<open>Number(`1e${d}`)\<close> for a \<open>Number\<close> \<open>d\<close>. The template prints an integer below
  \<open>10 ^ 21\<close> in magnitude as its digits, and the literal \<open>1e<digits>\<close> is the double
  nearest to that power of ten; any other \<open>d\<close> prints as text that is not a numeric
  literal (\<open>1e1.5\<close>, \<open>1e1e+21\<close>, \<open>1eNaN\<close>), which converts to \<open>NaN\<close>.
\<close>

definition pow10_literal :: "number \<Rightarrow> number" where
  "pow10_literal d =
     (case d of
        Num r \<Rightarrow>
          if r = of_int \<lfloor>r\<rfloor> \<and> \<bar>r\<bar> < 10 ^ 21
          then nearest_double (if 0 \<le> r then 10 ^ nat \<lfloor>r\<rfloor> else 1 / 10 ^ nat (- \<lfloor>r\<rfloor>))
          else NaN
      | _ \<Rightarrow> NaN)"

text \<open>The sign of a number that is not \<open>NaN\<close>, and the infinity of a sign.\<close>

definition js_sign :: "number \<Rightarrow> int" where
  "js_sign x =
     (case x of
        Num r \<Rightarrow> if r < 0 then - 1 else if r = 0 then 0 else 1
      | PosInf \<Rightarrow> 1
      | NegInf \<Rightarrow> - 1
      | NaN \<Rightarrow> 0)"

definition infinity_of :: "int \<Rightarrow> number" where
  "infinity_of sg = (if sg < 0 then NegInf else PosInf)"

text \<open>The operators \<open>*\<close>, \<open>/\<close>, \<open>-\<close> and \<open><\<close> on numbers.\<close>

definition js_times :: "number \<Rightarrow> number \<Rightarrow> number" where
  "js_times x y =
     (case (x, y) of
        (Num a, Num b) \<Rightarrow> nearest_double (a * b)
      | _ \<Rightarrow> if x = NaN \<or> y = NaN \<or> x = Num 0 \<or> y = Num 0 then NaN
             else infinity_of (js_sign x * js_sign y))"

definition js_divide :: "number \<Rightarrow> number \<Rightarrow> number" where
  "js_divide x y =
     (case (x, y) of
        (Num a, Num b) \<Rightarrow>
          if b = 0 then (if a = 0 then NaN else infinity_of (js_sign x))
          else nearest_double (a / b)
      | (Num a, PosInf) \<Rightarrow> Num 0
      | (Num a, NegInf) \<Rightarrow> Num 0
      | (PosInf, Num b) \<Rightarrow> infinity_of (if b < 0 then - 1 else 1)
      | (NegInf, Num b) \<Rightarrow> infinity_of (if b < 0 then 1 else - 1)
      | _ \<Rightarrow> NaN)"

definition js_minus :: "number \<Rightarrow> number \<Rightarrow> number" where
  "js_minus x y =
     (case (x, y) of
        (Num a, Num b) \<Rightarrow> nearest_double (a - b)
      | (Num a, PosInf) \<Rightarrow> NegInf
      | (Num a, NegInf) \<Rightarrow> PosInf
      | (PosInf, Num b) \<Rightarrow> PosInf
      | (PosInf, NegInf) \<Rightarrow> PosInf
      | (NegInf, Num b) \<Rightarrow> NegInf
      | (NegInf, PosInf) \<Rightarrow> NegInf
      | _ \<Rightarrow> NaN)"

definition js_less :: "number \<Rightarrow> number \<Rightarrow> bool" where
  "js_less x y =
     (case (x, y) of
        (Num a, Num b) \<Rightarrow> a < b
      | (Num a, PosInf) \<Rightarrow> True
      | (NegInf, Num b) \<Rightarrow> True
      | (NegInf, PosInf) \<Rightarrow> True
      | _ \<Rightarrow> False)"

subsection \<open>Formatting a number\<close>

text \<open>\<open>String.prototype.split(".")\<close> and \<open>Array.prototype.join(".")\<close>.\<close>

fun split_dot :: "string \<Rightarrow> string list" where
  "split_dot [] = [[]]"
| "split_dot (c # cs) =
     (if c = CHR ''.'' then [] # split_dot cs
      else (case split_dot cs of [] \<Rightarrow> [[c]] | p # ps \<Rightarrow> (c # p) # ps))"

fun join_dot :: "string list \<Rightarrow> string" where
  "join_dot [] = []"
| "join_dot [p] = p"
| "join_dot (p # q # ps) = p @ ''.'' @ join_dot (q # ps)"

definition is_digit :: "char \<Rightarrow> bool" where
  "is_digit c \<longleftrightarrow> c \<in> set ''0123456789''"

definition is_word :: "char \<Rightarrow> bool" where
  "is_word c \<longleftrightarrow>
     c \<in> set ''abcdefghijklmnopqrstuvwxyzABCDEFGHIJKLMNOPQRSTUVWXYZ0123456789_''"

text \<open>
  \<open>.replace(/\B(?=(\d{3})+(?!\d))/g, ",")\<close>: a comma goes in front of a character when
  the character before it is a word character (\<open>\B\<close>, the next one being a digit) and
  the run of digits that starts here has a length that is a positive multiple of three.
  The flag says whether the previous character is a word character.
\<close>

fun add_commas :: "bool \<Rightarrow> string \<Rightarrow> string" where
  "add_commas prev_word [] = []"
| "add_commas prev_word (c # cs) =
     (let run = length (takeWhile is_digit (c # cs))
      in (if prev_word \<and> 0 < run \<and> run mod 3 = 0 then '','' else []) @
         c # add_commas (is_word c) cs)"

text \<open>
  \<open>numberWithCommas\<close> (lines 41-49). \<open>Number.prototype.toString\<close> is a parameter,
  \<open>toString\<close>; the literal \<open>0.000001\<close> is the double nearest to \<open>10 ^ -6\<close>.
\<close>

definition numberWithCommas :: "(number \<Rightarrow> string) \<Rightarrow> number \<Rightarrow> string" where
  "numberWithCommas toString x =
     (if js_less x (nearest_double (1 / 1000000)) then ''0.00''
      else (case split_dot (toString x) of
              [] \<Rightarrow> []
            | [p] \<Rightarrow> add_commas False p
            | p # q # ps \<Rightarrow> join_dot (add_commas False p # take 2 q # ps)))"

subsection \<open>Token metadata\<close>

text \<open>
  The module imports \<open>rpcMap\<close>, \<open>ethRpcArray\<close> and \<open>excludedMap\<close> from \<open>./const\<close> and reads
  the chain from the environment (lines 1-10). They are parameters of the model;
  \<open>excludedMap\<close> gives the addresses to skip in the order in which \<open>for ... of\<close> visits
  them.
\<close>

record config =
  chain :: string
  ethRpcArray :: "string list"
  excludedMap :: "address \<Rightarrow> address list option"

text \<open>
  The fields \<open>price\<close> and \<open>USD\<close> of a value that has properties, \<open>None\<close> when the field is
  missing or \<open>null\<close>; the fields that are present hold numbers.
\<close>

record priceObj =
  po_price :: "number option"
  po_USD :: "number option"

text \<open>
  What \<open>req.json()\<close> gives for the body of a response: \<open>null\<close>, or a value whose
  properties can be read (an object; a number, a string, a boolean or an array has
  neither field). Reading a property of \<open>null\<close> throws a \<open>TypeError\<close>.
\<close>

datatype response_body = NullBody | ObjectBody priceObj

text \<open>
  What the outside world answers to \<open>getTokenInfo\<close> for a contract address. For the
  contract calls, \<open>None\<close> means that the call threw. \<open>symbol32_call\<close> is the ticker that
  lines 86-87 decode from the \<open>bytes32\<close> symbol. \<open>decimals_call\<close> is the value returned
  by \<open>decimals()\<close> as \<open>Number(...)\<close> reads it on line 136. For the two price services,
  \<open>Some body\<close> is a response with status 200 whose body parsed to \<open>body\<close>, and \<open>None\<close> any
  other outcome (\<open>fetch\<close> or \<open>req.json()\<close> threw, or the status was not 200): the
  assignment to \<open>priceObj\<close> does not happen. The contract address is one that the
  constructor \<open>web3.eth.Contract\<close> accepts.
\<close>

record metadata_env =
  symbol_call :: "address \<Rightarrow> string option"
  ticker_call :: "address \<Rightarrow> string option"
  symbol32_call :: "address \<Rightarrow> string option"
  decimals_call :: "address \<Rightarrow> number option"
  price_api :: "string \<Rightarrow> address \<Rightarrow> response_body option"
  price_api2 :: "string \<Rightarrow> response_body option"

record tokenObject =
  address :: address
  ticker :: "string option"
  valid :: "bool option"
  decimals :: number
  price :: number

text \<open>\<open>!ticker\<close>: \<open>undefined\<close>, \<open>null\<close> and the empty string are falsy.\<close>

definition no_ticker :: "string option \<Rightarrow> bool" where
  "no_ticker t \<longleftrightarrow> t = None \<or> t = Some []"

text \<open>
  The three tries of lines 63-95, which leave \<open>ticker\<close> and \<open>validToken\<close>. Both start
  \<open>undefined\<close> (\<open>None\<close>).
\<close>

definition ticker_tries :: "metadata_env \<Rightarrow> address \<Rightarrow> string option \<times> bool option" where
  "ticker_tries env contractAddress =
     (let (ticker1, valid1) =
            (case symbol_call env contractAddress of
               Some t \<Rightarrow> (Some t, Some True)
             | None \<Rightarrow> (None, None));
          (ticker2, valid2) =
            (if no_ticker ticker1 then
               (case ticker_call env contractAddress of
                  Some t \<Rightarrow> (Some t, Some True)
                | None \<Rightarrow> (ticker1, valid1))
             else (ticker1, valid1))
      in if no_ticker ticker2 then
           (case symbol32_call env contractAddress of
              Some t \<Rightarrow> (Some t, Some True)
            | None \<Rightarrow> (Some ''unknown'', Some False))
         else (ticker2, valid2))"

text \<open>
  Lines 104-132, the value of \<open>priceObj\<close> after the price requests. The first request is
  made for a valid token only. The test \<open>priceObj.price === 0\<close> of line 119 stands
  outside the \<open>try\<close> blocks and reads a property of \<open>priceObj\<close>: when the first body was
  \<open>null\<close> it throws.
\<close>

definition price_requests ::
  "config \<Rightarrow> metadata_env \<Rightarrow> address \<Rightarrow> string option \<Rightarrow> bool option
     \<Rightarrow> error + response_body" where
  "price_requests cfg env contractAddress tick validToken =
     (let priceObj0 = ObjectBody \<lparr>po_price = Some (Num 0), po_USD = Some (Num 0)\<rparr>
      in if validToken = Some True then
           (case (case price_api env (chain cfg) contractAddress of
                    Some body \<Rightarrow> body
                  | None \<Rightarrow> priceObj0) of
              NullBody \<Rightarrow> Inl TypeError
            | ObjectBody obj \<Rightarrow>
                if po_price obj = Some (Num 0) then
                  (case price_api2 env (case tick of Some t \<Rightarrow> t | None \<Rightarrow> ''undefined'') of
                     Some body \<Rightarrow> Inr body
                   | None \<Rightarrow> Inr (ObjectBody obj))
                else Inr (ObjectBody obj))
         else Inr priceObj0)"

text \<open>
  \<open>getTokenInfo\<close> (lines 58-139). It returns the token object, or throws: line 137 reads
  \<open>priceObj['price']\<close> outside the \<open>try\<close> blocks as well, which throws when the second
  body was \<open>null\<close>.
\<close>

definition getTokenInfo :: "config \<Rightarrow> metadata_env \<Rightarrow> address \<Rightarrow> error + tokenObject" where
  "getTokenInfo cfg env contractAddress =
     (let (tick, validToken) = ticker_tries env contractAddress;
          decimals0 = (case decimals_call env contractAddress of Some d \<Rightarrow> d | None \<Rightarrow> Num 18)
      in case price_requests cfg env contractAddress tick validToken of
           Inl e \<Rightarrow> Inl e
         | Inr NullBody \<Rightarrow> Inl TypeError
         | Inr (ObjectBody obj) \<Rightarrow>
             Inr \<lparr>address = contractAddress,
                  ticker = tick,
                  valid = validToken,
                  decimals = (if decimals0 = NaN \<or> decimals0 = Num 0 then Num 18 else decimals0),
                  price = (case po_price obj of
                             Some p \<Rightarrow> p
                           | None \<Rightarrow> (case po_USD obj of Some p \<Rightarrow> p | None \<Rightarrow> Num 0))\<rparr>)"

subsection \<open>Aggregation\<close>

text \<open>
  A record of lines 259-264. \<open>contract\<close> is \<open>contractList[i]\<close>, \<open>None\<close> when the index is
  past the end of the list (\<open>undefined\<close>).
\<close>

record balance_record =
  amount :: int
  roundedAmount :: number
  dollarValue :: string
  contract :: "address option"

text \<open>\<open>BigInt(Number(`1e${tokenObject.decimals}`))\<close>, the divisor of line 257.\<close>

definition divisor :: "number \<Rightarrow> error + int" where
  "divisor d = BigInt_of_Number (pow10_literal d)"

definition nth_opt :: "'a list \<Rightarrow> nat \<Rightarrow> 'a option" where
  "nth_opt xs i = (if i < length xs then Some (xs ! i) else None)"

text \<open>The body of the loop for one strictly positive balance (lines 257-264).\<close>

definition make_record ::
  "(number \<Rightarrow> string) \<Rightarrow> tokenObject \<Rightarrow> address list \<Rightarrow> nat \<Rightarrow> int \<Rightarrow> error + balance_record"
  where
  "make_record toString tokenObj contractList i balance =
     (case divisor (decimals tokenObj) of
        Inl e \<Rightarrow> Inl e
      | Inr dv \<Rightarrow>
          (case BigInt_div balance dv of
             Inl e \<Rightarrow> Inl e
           | Inr q \<Rightarrow>
               Inr \<lparr>amount = balance,
                    roundedAmount = Number_of_BigInt q,
                    dollarValue =
                      numberWithCommas toString (js_times (Number_of_BigInt q) (price tokenObj)),
                    contract = nth_opt contractList i\<rparr>))"

text \<open>
  The loop of lines 255-266 from index \<open>i\<close> on, over the balances that remain. An
  exception leaves the loop at once.
\<close>

fun format_balances ::
  "(number \<Rightarrow> string) \<Rightarrow> tokenObject \<Rightarrow> address list \<Rightarrow> nat \<Rightarrow> int list
     \<Rightarrow> error + balance_record list" where
  "format_balances toString tokenObj contractList i [] = Inr []"
| "format_balances toString tokenObj contractList i (balance # balances) =
     (if 0 < balance then
        (case make_record toString tokenObj contractList i balance of
           Inl e \<Rightarrow> Inl e
         | Inr r \<Rightarrow>
             (case format_balances toString tokenObj contractList (Suc i) balances of
                Inl e \<Rightarrow> Inl e
              | Inr rs \<Rightarrow> Inr (r # rs)))
      else format_balances toString tokenObj contractList (Suc i) balances)"

text \<open>
  \<open>records.sort(function(a, b) {return b.roundedAmount - a.roundedAmount})\<close> (line 269).
  \<open>Array.prototype.sort\<close> is stable (ECMAScript 2019): an element moves behind its
  neighbour only when the comparator is positive. Insertion from the right is such a
  sort.
\<close>

definition compare_records :: "balance_record \<Rightarrow> balance_record \<Rightarrow> number" where
  "compare_records a b = js_minus (roundedAmount b) (roundedAmount a)"

fun insert_sorted :: "('a \<Rightarrow> 'a \<Rightarrow> number) \<Rightarrow> 'a \<Rightarrow> 'a list \<Rightarrow> 'a list" where
  "insert_sorted cmp x [] = [x]"
| "insert_sorted cmp x (y # ys) =
     (if js_less (Num 0) (cmp x y) then y # insert_sorted cmp x ys else x # y # ys)"

definition js_sort :: "('a \<Rightarrow> 'a \<Rightarrow> number) \<Rightarrow> 'a list \<Rightarrow> 'a list" where
  "js_sort cmp xs = foldr (insert_sorted cmp) xs []"

text \<open>Lines 251-271: from the balances to the sorted records.\<close>

definition aggregate ::
  "(number \<Rightarrow> string) \<Rightarrow> tokenObject \<Rightarrow> address list \<Rightarrow> int list
     \<Rightarrow> error + balance_record list" where
  "aggregate toString tokenObj contractList balances =
     (case format_balances toString tokenObj contractList 0 balances of
        Inl e \<Rightarrow> Inl e
      | Inr rs \<Rightarrow> Inr (js_sort compare_records rs))"

subsection \<open>Scanning one token\<close>

text \<open>
  The state of a promise as far as a run tells: still pending, rejected with an
  exception, or fulfilled.
\<close>

datatype 'a outcome = Pending | Rejected error | Fulfilled 'a

text \<open>
  The pool of lines 237-246: one worker per endpoint of \<open>ethRpcArray\<close> on the chain
  \<open>eth\<close>, otherwise one worker on the caller's connection \<open>web3\<close>.
\<close>

definition build_workers :: "config \<Rightarrow> string \<Rightarrow> tokenObject \<Rightarrow> worker list" where
  "build_workers cfg web3 tokenObj =
     (if chain cfg = ''eth''
      then map (\<lambda>rpc. \<lparr>token = Contract rpc (address tokenObj), isBusy = False\<rparr>) (ethRpcArray cfg)
      else [\<lparr>token = Contract web3 (address tokenObj), isBusy = False\<rparr>])"

text \<open>
  \<open>findBalances\<close> (lines 236-272) along the run \<open>es\<close> of the distributor. The result is the
  state of the promise at the end of \<open>es\<close>, with the \<open>balanceOf\<close> calls issued so far.
\<close>

definition findBalances ::
  "config \<Rightarrow> (number \<Rightarrow> string) \<Rightarrow> string \<Rightarrow> address list \<Rightarrow> tokenObject \<Rightarrow> event list
     \<Rightarrow> balance_record list outcome \<times> call list" where
  "findBalances cfg toString web3 contractList tokenObj es =
     (case exec es (distributeTasks_start (build_workers cfg web3 tokenObj) contractList) of
        None \<Rightarrow> (Pending, [])
      | Some s \<Rightarrow>
          (case pc s of
             Returned balances \<Rightarrow>
               (case aggregate toString tokenObj contractList balances of
                  Inl e \<Rightarrow> (Rejected e, balanceOf_calls s)
                | Inr records \<Rightarrow> (Fulfilled records, balanceOf_calls s))
           | _ \<Rightarrow> (Pending, balanceOf_calls s)))"

record ScanResult =
  res_tokenAddress :: address
  res_ticker :: "string option"
  res_decimals :: number
  res_price :: number
  res_records :: "balance_record list"

text \<open>
  Arrays are objects that the caller and \<open>processOneToken\<close> share. A heap holds the
  arrays of addresses; a reference is an index into it, and a new array goes to the end.
\<close>

type_synonym heap = "address list list"

text \<open>\<open>[...contractList]\<close>: a new array with the elements of \<open>contractList\<close>.\<close>

definition spread :: "heap \<Rightarrow> nat \<Rightarrow> nat \<times> heap" where
  "spread h contractList = (length h, h @ [h ! contractList])"

text \<open>
  One round of the loop of lines 292-297 on the array \<open>localList\<close>: \<open>indexOf\<close>, then
  \<open>splice(index, 1)\<close> when the address was found.
\<close>

definition exclude_one :: "nat \<Rightarrow> heap \<Rightarrow> address \<Rightarrow> heap" where
  "exclude_one localList h ex =
     (case findIndex (\<lambda>a. a = ex) (h ! localList) of
        Some index \<Rightarrow> h[localList := take index (h ! localList) @ drop (Suc index) (h ! localList)]
      | None \<Rightarrow> h)"

text \<open>Lines 287-298: the copy and the exclusions of this token.\<close>

definition working_list :: "config \<Rightarrow> heap \<Rightarrow> nat \<Rightarrow> address \<Rightarrow> nat \<times> heap" where
  "working_list cfg h contractList tokenAddress =
     (let (localList, h1) = spread h contractList
      in (localList,
          case excludedMap cfg tokenAddress of
            Some excluded \<Rightarrow> foldl (exclude_one localList) h1 excluded
          | None \<Rightarrow> h1))"

text \<open>
  \<open>processOneToken\<close> (lines 284-320), with \<open>contractList\<close> a reference into the heap and
  \<open>es\<close> the run of the distributor. It gives the state of its promise, the \<open>balanceOf\<close>
  calls issued and the heap it leaves. An exception of \<open>getTokenInfo\<close> (line 285) rejects
  the promise before the copy of line 287 is made.
\<close>

definition processOneToken ::
  "config \<Rightarrow> metadata_env \<Rightarrow> (number \<Rightarrow> string) \<Rightarrow> string \<Rightarrow> heap \<Rightarrow> nat \<Rightarrow> address
     \<Rightarrow> event list \<Rightarrow> ScanResult outcome \<times> call list \<times> heap" where
  "processOneToken cfg env toString web3 h contractList tokenAddress es =
     (case getTokenInfo cfg env tokenAddress of
        Inl e \<Rightarrow> (Rejected e, [], h)
      | Inr tokenObj \<Rightarrow>
          (let (localList, h') = working_list cfg h contractList tokenAddress
           in if valid tokenObj \<noteq> Some True then
                (Fulfilled \<lparr>res_tokenAddress = tokenAddress, res_ticker = None,
                            res_decimals = Num 18, res_price = Num 0, res_records = []\<rparr>,
                 [], h')
              else
                (case findBalances cfg toString web3 (h' ! localList) tokenObj es of
                   (Fulfilled results, calls) \<Rightarrow>
                     (Fulfilled \<lparr>res_tokenAddress = tokenAddress, res_ticker = ticker tokenObj,
                                 res_decimals = decimals tokenObj, res_price = price tokenObj,
                                 res_records = results\<rparr>,
                      calls, h')
                 | (Rejected e, calls) \<Rightarrow> (Rejected e, calls, h')
                 | (Pending, calls) \<Rightarrow> (Pending, calls, h'))))"

subsection \<open>The report\<close>

record report =
  resStr :: string
  asDollar :: number

text \<open>The line of one record (line 345), with its newline.\<close>

definition record_line :: "(number \<Rightarrow> string) \<Rightarrow> string \<Rightarrow> balance_record \<Rightarrow> string" where
  "record_line toString tick r =
     ''Contract '' @ (case contract r of Some a \<Rightarrow> a | None \<Rightarrow> ''undefined'') @ '' => '' @
     numberWithCommas toString (roundedAmount r) @ '' '' @ tick @
     '' ( $'' @ dollarValue r @ '' )'' @ [CHR 0x0A]"

text \<open>The loop of lines 344-348: the \<open>BigInt\<close> sum and the text of the lines.\<close>

definition sum_and_lines ::
  "(number \<Rightarrow> string) \<Rightarrow> string \<Rightarrow> balance_record list \<Rightarrow> int \<times> string" where
  "sum_and_lines toString tick rs =
     foldl (\<lambda>(sum_amount, localStr) r.
              (sum_amount + amount r, localStr @ record_line toString tick r))
       (0, []) rs"

text \<open>Line 351: \<open>Number(sum) / Number(`1e${res.decimals}`)\<close>.\<close>

definition header_total :: "int \<Rightarrow> number \<Rightarrow> number" where
  "header_total sum_amount d = js_divide (Number_of_BigInt sum_amount) (pow10_literal d)"

text \<open>\<open>formatTokenResult\<close> (lines 329-358).\<close>

definition formatTokenResult :: "(number \<Rightarrow> string) \<Rightarrow> ScanResult \<Rightarrow> report" where
  "formatTokenResult toString res =
     (if no_ticker (res_ticker res) then
        \<lparr>resStr = ''??? ['' @ res_tokenAddress res @ ''] - unknown token'' @ [CHR 0x0A],
         asDollar = Num 0\<rparr>
      else if res_price res = Num (- 1) then
        \<lparr>resStr = the (res_ticker res) @ '' ['' @ res_tokenAddress res @
                   '']: not checked - no price found'' @ [CHR 0x0A],
         asDollar = Num 0\<rparr>
      else
        (let tick = the (res_ticker res);
             (sum_amount, localStr) = sum_and_lines toString tick (res_records res);
             total = header_total sum_amount (res_decimals res);
             dollars = js_times total (res_price res);
             header = tick @ '' ['' @ res_tokenAddress res @ '']: '' @
                      numberWithCommas toString total @ '' tokens lost / $'' @
                      numberWithCommas toString dollars
         in \<lparr>resStr = header @ [CHR 0x0A] @ replicate 47 (CHR ''-'') @ [CHR 0x0A] @ localStr,
             asDollar = dollars\<rparr>))"

text \<open>The numbers that \<open>Number(b)\<close> can give for a \<open>BigInt\<close> \<open>b\<close>: the integers and the infinities.\<close>

definition int_or_inf :: "number \<Rightarrow> bool" where
  "int_or_inf x \<longleftrightarrow> x = PosInf \<or> x = NegInf \<or> (\<exists>k::int. x = Num (of_int k))"

subsection \<open>Example data\<close>

text \<open>A pool of two idle workers, and a run in which the second query completes first
  and the first query fails once.\<close>

definition example_pool :: "worker list" where
  "example_pool = [\<lparr>token = Contract ''https://rpc-1.example'' ''0xToken'', isBusy = False\<rparr>,
                   \<lparr>token = Contract ''https://rpc-2.example'' ''0xToken'', isBusy = False\<rparr>]"

definition example_run :: "event list" where
  "example_run = [Wake, Wake, Reply 1 (Some 20), Timer, Reply 0 None, Wake,
                  Reply 2 (Some 30), Reply 0 (Some 10), Join]"

text \<open>A configuration with one exclusion list, a token whose symbol resolves while
  its decimals and its price do not, and a heap with one address list.\<close>

definition example_config :: config where
  "example_config =
     \<lparr>chain = ''eth'',
      ethRpcArray = [''https://rpc-1.example'', ''https://rpc-2.example''],
      excludedMap = (\<lambda>t. if t = ''0xToken'' then Some [''0xB'', ''0xZ''] else None)\<rparr>"

definition example_env :: metadata_env where
  "example_env =
     \<lparr>symbol_call = (\<lambda>a. if a = ''0xToken'' then Some ''TKN'' else None),
      ticker_call = (\<lambda>a. None),
      symbol32_call = (\<lambda>a. None),
      decimals_call = (\<lambda>a. None),
      price_api = (\<lambda>c a. None),
      price_api2 = (\<lambda>t. None)\<rparr>"

text \<open>The same token when the first price service answers \<open>{"price": 1e999}\<close>, which
  \<open>req.json()\<close> parses to \<open>Infinity\<close>, and the token object that results.\<close>

definition example_env_infinite_price :: metadata_env where
  "example_env_infinite_price =
     example_env\<lparr>price_api :=
       (\<lambda>c a. Some (ObjectBody \<lparr>po_price = Some PosInf, po_USD = None\<rparr>))\<rparr>"

definition example_token_infinite_price :: tokenObject where
  "example_token_infinite_price =
     \<lparr>address = ''0xToken'', ticker = Some ''TKN'', valid = Some True,
      decimals = Num 18, price = PosInf\<rparr>"



definition example_env_null_body :: metadata_env where
  "example_env_null_body = example_env\<lparr>price_api := (\<lambda>c a. Some NullBody)\<rparr>"


text \<open>A number-to-text function that prints \<open>NaN\<close> as \<open>Number.prototype.toString\<close> does.\<close>

definition example_toString :: "number \<Rightarrow> string" where
  "example_toString x = (if x = NaN then ''NaN'' else ''0'')"

definition example_heap :: heap where
  "example_heap = [[''0xA'', ''0xB'', ''0xC'', ''0xB'']]"

definition example_token :: tokenObject where
  "example_token = \<lparr>address = ''0xToken'', ticker = Some ''TKN'', valid = Some True,
                     decimals = Num 18, price = Num 2\<rparr>"

text \<open>The result of a scan with the raw balances 2000000000000000002 and
  1000000000000000001.\<close>

definition example_result :: ScanResult where
  "example_result =
     \<lparr>res_tokenAddress = ''0xToken'', res_ticker = Some ''TKN'', res_decimals = Num 18,
      res_price = Num 1,
      res_records =
        [\<lparr>amount = 2000000000000000002, roundedAmount = Num 2, dollarValue = ''2'',
          contract = Some ''0xB''\<rparr>,
         \<lparr>amount = 1000000000000000001, roundedAmount = Num 1, dollarValue = ''1'',
          contract = Some ''0xA''\<rparr>]\<rparr>"

section \<open>Properties\<close>

subsection \<open>The retry loop of the balance query\<close>

lemma getBalanceOf_retries:
  "(\<forall>k<M. balanceOf tok addr (length issued + k) = None) \<Longrightarrow>
   balanceOf tok addr (length issued + M) = Some v \<Longrightarrow>
   getBalanceOf balanceOf tok addr issued
     = Some (v, issued @ replicate (Suc M) (tok, addr))"
proof (induction M arbitrary: issued)
  case 0
  then show ?case by (subst getBalanceOf.simps) simp
next
  case (Suc M)
  from Suc.prems(1) have first: "balanceOf tok addr (length issued) = None"
    by (metis add.right_neutral zero_less_Suc)
  have rest: "\<forall>k<M. balanceOf tok addr (length (issued @ [(tok, addr)]) + k) = None"
    using Suc.prems(1) by auto
  have last: "balanceOf tok addr (length (issued @ [(tok, addr)]) + M) = Some v"
    using Suc.prems(2) by simp
  have "getBalanceOf balanceOf tok addr issued
          = getBalanceOf balanceOf tok addr (issued @ [(tok, addr)])"
    by (subst getBalanceOf.simps) (simp add: first)
  also have "\<dots> = Some (v, (issued @ [(tok, addr)]) @ replicate (Suc M) (tok, addr))"
    by (rule Suc.IH [OF rest last])
  finally show ?case by (simp add: replicate_app_Cons_same)
qed

lemma getBalanceOf_returns_after_success:
  assumes "getBalanceOf balanceOf tok addr issued = Some r"
  shows "\<exists>k. balanceOf tok addr (length issued + k) \<noteq> None"
proof (rule getBalanceOf.raw_induct
    [where P = "\<lambda>b t a i r. \<exists>k. b t a (length i + k) \<noteq> None", OF _ assms])
  fix getBalanceOf' :: "node \<Rightarrow> token_contract \<Rightarrow> address \<Rightarrow> call list \<Rightarrow> (int \<times> call list) option"
  fix b t a i r
  assume IH: "\<And>b t a i r. getBalanceOf' b t a i = Some r \<Longrightarrow> \<exists>k. b t a (length i + k) \<noteq> None"
  assume body: "(case b t a (length i) of
        Some balance \<Rightarrow> Some (balance, i @ [(t, a)])
      | None \<Rightarrow> getBalanceOf' b t a (i @ [(t, a)])) = Some r"
  show "\<exists>k. b t a (length i + k) \<noteq> None"
  proof (cases "b t a (length i)")
    case None
    with body have "getBalanceOf' b t a (i @ [(t, a)]) = Some r"
      by simp
    from IH [OF this] obtain k where
      "b t a (length (i @ [(t, a)]) + k) \<noteq> None" by blast
    then have "b t a (length i + Suc k) \<noteq> None" by simp
    then show ?thesis by blast
  next
    case (Some v)
    then have "b t a (length i + 0) \<noteq> None" by simp
    then show ?thesis by blast
  qed
qed

text \<open>
  C3. If the \<open>balanceOf\<close> call of a worker's contract handle fails \<open>M\<close> times and then
  succeeds with \<open>v\<close>, \<open>getBalanceOf\<close> returns \<open>v\<close> after exactly \<open>M + 1\<close> calls, every one
  of them against the same contract handle and the same address; there is no retry
  limit (\<open>M\<close> is arbitrary) and nothing happens between two calls. If the call fails
  forever, \<open>getBalanceOf\<close> never returns: no error value is ever produced.
\<close>

theorem getBalanceOf_retry_until_success:
  "((\<forall>k<M. balanceOf tok addr (length issued + k) = None) \<and>
    balanceOf tok addr (length issued + M) = Some v \<longrightarrow>
      getBalanceOf balanceOf tok addr issued
        = Some (v, issued @ replicate (M + 1) (tok, addr))) \<and>
   ((\<forall>k. balanceOf tok addr (length issued + k) = None) \<longrightarrow>
      getBalanceOf balanceOf tok addr issued = None)"
proof (intro conjI impI)
  assume "(\<forall>k<M. balanceOf tok addr (length issued + k) = None) \<and>
    balanceOf tok addr (length issued + M) = Some v"
  then show "getBalanceOf balanceOf tok addr issued
        = Some (v, issued @ replicate (M + 1) (tok, addr))"
    using getBalanceOf_retries [of M balanceOf tok addr issued v] by simp
next
  assume forever: "\<forall>k. balanceOf tok addr (length issued + k) = None"
  show "getBalanceOf balanceOf tok addr issued = None"
  proof (cases "getBalanceOf balanceOf tok addr issued")
    case None
    then show ?thesis .
  next
    case (Some r)
    from getBalanceOf_returns_after_success [OF this] forever show ?thesis by auto
  qed
qed

theorem getBalanceOf_retry_until_success_witness:
  "getBalanceOf (\<lambda>t a n. if n < 2 then None else Some 7)
      (Contract ''https://rpc.example'' ''0xToken'') ''0xHolder'' []
     = Some (7, [(Contract ''https://rpc.example'' ''0xToken'', ''0xHolder''),
                 (Contract ''https://rpc.example'' ''0xToken'', ''0xHolder''),
                 (Contract ''https://rpc.example'' ''0xToken'', ''0xHolder'')]) \<and>
   getBalanceOf (\<lambda>t a n. None)
      (Contract ''https://rpc.example'' ''0xToken'') ''0xHolder'' [] = None"
  using getBalanceOf_retry_until_success
      [of 2 "\<lambda>t a n. if n < 2 then None else Some 7"
          "Contract ''https://rpc.example'' ''0xToken''" "''0xHolder''" "[]" 7]
    getBalanceOf_retry_until_success
      [of 0 "\<lambda>t a n. None"
          "Contract ''https://rpc.example'' ''0xToken''" "''0xHolder''" "[]" 0]
  by (simp add: numeral_3_eq_3)


subsection \<open>The distributor: invariant and progress\<close>

lemma findIndex_Some: "findIndex P xs = Some i \<Longrightarrow> i < length xs \<and> P (xs ! i)"
  by (induction xs arbitrary: i) (auto split: if_splits)

lemma findIndex_None: "findIndex P xs = None \<longleftrightarrow> (\<forall>x \<in> set xs. \<not> P x)"
  by (induction xs) auto

lemma length_filter_update:
  "k < length xs \<Longrightarrow>
   length (filter P (xs[k := x])) + (if P (xs ! k) then 1 else 0)
     = length (filter P xs) + (if P x then 1 else 0)"
proof (induction xs arbitrary: k)
  case Nil
  then show ?case by simp
next
  case (Cons a xs)
  show ?case
  proof (cases k)
    case 0
    then show ?thesis by simp
  next
    case (Suc j)
    with Cons.prems have "j < length xs" by simp
    from Cons.IH [OF this] Suc show ?thesis by simp
  qed
qed

lemma core_pc [simp]: "core cl toks (s\<lparr>pc := c\<rparr>) = core cl toks s"
  by (simp add: core_def outstanding_def inFlight_def)

lemma checkAvailability_inv:
  assumes "core cl toks s" and "taskQueue s \<noteq> []"
  shows "dist_inv cl toks (checkAvailability s)"
proof (cases "findIndex (\<lambda>worker. \<not> isBusy worker) (workers s)")
  case None
  with assms show ?thesis
    by (simp add: dist_inv_def checkAvailability_def pc_ok_def)
next
  case (Some i)
  from findIndex_Some [OF this] have "i < length (workers s)" "\<not> isBusy (workers s ! i)"
    by simp_all
  with assms Some show ?thesis
    by (simp add: dist_inv_def checkAvailability_def pc_ok_def)
qed

lemma loop_head_inv:
  assumes "core cl toks s"
  shows "dist_inv cl toks (loop_head s)"
proof (cases "taskQueue s = []")
  case True
  with assms show ?thesis by (simp add: loop_head_def dist_inv_def pc_ok_def)
next
  case False
  with checkAvailability_inv [OF assms] show ?thesis by (simp add: loop_head_def)
qed

lemma start_inv:
  assumes "\<forall>w \<in> set ws. \<not> isBusy w"
  shows "dist_inv cl (map token ws) (distributeTasks_start ws cl)"
proof -
  from assms have "filter isBusy ws = []" by (simp add: filter_empty_conv)
  with assms show ?thesis
    unfolding distributeTasks_start_def
    by (intro loop_head_inv) (simp add: core_def outstanding_def inFlight_def)
qed

lemma map_token_update:
  "i < length ws \<Longrightarrow> map token (ws[i := (ws ! i)\<lparr>isBusy := b\<rparr>]) = map token ws"
  by (simp add: map_update list_update_same_conv)

lemma wake_core:
  assumes c: "core cl toks s" and q: "taskQueue s = t # rest"
    and i: "i < length (workers s)" and idle: "\<not> isBusy (workers s ! i)"
  shows "core cl toks (executeTask i t (s\<lparr>taskQueue := rest\<rparr>))"
proof -
  let ?s' = "executeTask i t (s\<lparr>taskQueue := rest\<rparr>)"
  have ws: "workers ?s' = (workers s)[i := (workers s ! i)\<lparr>isBusy := True\<rparr>]"
    and cs: "completedTasks ?s' = completedTasks s @
          [\<lparr>worker_index = i, task_address = t, attempts = 1, settled = None\<rparr>]"
    and tq: "taskQueue ?s' = rest"
    by (simp_all add: executeTask_def)
  have 1: "map token (workers ?s') = toks"
    using c i by (simp add: ws map_token_update core_def)
  have 2: "map task_address (completedTasks ?s') @ taskQueue ?s' = cl"
    using c q by (simp add: cs tq core_def)
  have 3: "\<forall>p \<in> set (completedTasks ?s'). worker_index p < length (workers ?s')"
    using c i by (auto simp: cs ws core_def)
  have 4: "length (outstanding ?s' w) = (if isBusy (workers ?s' ! w) then 1 else 0)"
    if "w < length (workers ?s')" for w
  proof -
    from that have w: "w < length (workers s)" by (simp add: ws)
    with c have old: "length (outstanding s w) = (if isBusy (workers s ! w) then 1 else 0)"
      by (simp add: core_def)
    show ?thesis
    proof (cases "w = i")
      case True
      with old idle w show ?thesis by (simp add: outstanding_def cs ws)
    next
      case False
      with old w show ?thesis by (simp add: outstanding_def cs ws)
    qed
  qed
  have "length (filter isBusy (workers ?s')) + 0 = length (filter isBusy (workers s)) + 1"
    using length_filter_update [OF i, of isBusy "(workers s ! i)\<lparr>isBusy := True\<rparr>"] idle
    by (simp add: ws)
  then have 5: "length (inFlight ?s') = length (filter isBusy (workers ?s'))"
    using c by (simp add: core_def inFlight_def cs)
  from 1 2 3 4 5 show ?thesis unfolding core_def by blast
qed

lemma reply_fail_inv:
  assumes inv: "dist_inv cl toks s" and k: "k < length (completedTasks s)"
    and un: "settled (completedTasks s ! k) = None"
  defines "p \<equiv> completedTasks s ! k"
  shows "dist_inv cl toks
     (s\<lparr>completedTasks := (completedTasks s)[k := p\<lparr>attempts := attempts p + 1\<rparr>],
        balanceOf_calls := balanceOf_calls s @ [(token (workers s ! worker_index p), task_address p)]\<rparr>)"
    (is "dist_inv cl toks ?s'")
proof -
  let ?p' = "p\<lparr>attempts := attempts p + 1\<rparr>"
  have same: "(completedTasks s)[k := ?p'] ! j = (completedTasks s ! j)\<lparr>attempts := attempts ((completedTasks s)[k := ?p'] ! j)\<rparr>"
    if "j < length (completedTasks s)" for j
    using that by (cases "j = k") (simp_all add: p_def)
  have m1: "map task_address ((completedTasks s)[k := ?p']) = map task_address (completedTasks s)"
    using k by (simp add: map_update list_update_same_conv p_def)
  have m2: "map settled ((completedTasks s)[k := ?p']) = map settled (completedTasks s)"
    using k by (simp add: map_update list_update_same_conv p_def)
  have m3: "\<forall>q \<in> set ((completedTasks s)[k := ?p']). worker_index q < length (workers s)"
  proof
    fix q assume "q \<in> set ((completedTasks s)[k := ?p'])"
    then have "q = ?p' \<or> q \<in> set (completedTasks s)"
      using set_update_subset_insert [of "completedTasks s" k ?p'] by auto
    moreover have "p \<in> set (completedTasks s)" using k by (simp add: p_def)
    ultimately show "worker_index q < length (workers s)"
      using inv by (auto simp: dist_inv_def core_def)
  qed
  have f: "length (filter P ((completedTasks s)[k := ?p'])) = length (filter P (completedTasks s))"
    if "P ?p' = P p" for P
    using length_filter_update [OF k, of P ?p'] that by (simp add: p_def)
  have 4: "length (outstanding ?s' w) = length (outstanding s w)" for w
    unfolding outstanding_def
    using f [of "\<lambda>p. worker_index p = w \<and> settled p = None"] by simp
  have 5: "length (inFlight ?s') = length (inFlight s)"
    unfolding inFlight_def using f [of "\<lambda>p. settled p = None"] by simp
  have c: "core cl toks ?s'"
    using inv m1 m3 4 5 by (simp add: dist_inv_def core_def)
  have "pc_ok ?s'"
    using inv m2 by (simp add: dist_inv_def pc_ok_def split: pc.splits)
  with c show ?thesis by (simp add: dist_inv_def)
qed


lemma reply_ok_inv:
  assumes inv: "dist_inv cl toks s" and k: "k < length (completedTasks s)"
    and un: "settled (completedTasks s ! k) = None"
  defines "p \<equiv> completedTasks s ! k"
  shows "dist_inv cl toks
     (s\<lparr>workers := (workers s)[worker_index p := (workers s ! worker_index p)\<lparr>isBusy := False\<rparr>],
        completedTasks := (completedTasks s)[k := p\<lparr>settled := Some b\<rparr>]\<rparr>)"
    (is "dist_inv cl toks ?s'")
proof -
  let ?p' = "p\<lparr>settled := Some b\<rparr>"
  let ?w = "worker_index p"
  from inv have c: "core cl toks s" and pcok: "pc_ok s" by (simp_all add: dist_inv_def)
  have pin: "p \<in> set (completedTasks s)" using k by (simp add: p_def)
  with c have w: "?w < length (workers s)" by (simp add: core_def)
  have unp: "settled p = None" using un by (simp add: p_def)
  have "p \<in> set (outstanding s ?w)" using pin unp by (simp add: outstanding_def)
  then have "length (outstanding s ?w) \<noteq> 0" by auto
  with c w have busy: "isBusy (workers s ! ?w)" and one: "length (outstanding s ?w) = 1"
    by (auto simp: core_def split: if_splits)
  have ws: "workers ?s' = (workers s)[?w := (workers s ! ?w)\<lparr>isBusy := False\<rparr>]"
    and cs: "completedTasks ?s' = (completedTasks s)[k := ?p']"
    by simp_all
  have 1: "map token (workers ?s') = toks"
    using c w by (simp add: map_token_update core_def)
  have "map task_address ((completedTasks s)[k := ?p']) = map task_address (completedTasks s)"
    using k by (simp add: map_update list_update_same_conv p_def)
  with c have 2: "map task_address (completedTasks ?s') @ taskQueue ?s' = cl"
    by (simp add: core_def)
  have 3: "\<forall>q \<in> set (completedTasks ?s'). worker_index q < length (workers ?s')"
  proof
    fix q assume "q \<in> set (completedTasks ?s')"
    then have "q = ?p' \<or> q \<in> set (completedTasks s)"
      using set_update_subset_insert [of "completedTasks s" k ?p'] by auto
    with pin c show "worker_index q < length (workers ?s')"
      by (auto simp: core_def)
  qed
  have 4: "length (outstanding ?s' v) = (if isBusy (workers ?s' ! v) then 1 else 0)"
    if "v < length (workers ?s')" for v
  proof -
    from that have v: "v < length (workers s)" by simp
    with c have old: "length (outstanding s v) = (if isBusy (workers s ! v) then 1 else 0)"
      by (simp add: core_def)
    note upd = length_filter_update [OF k, of "\<lambda>q. worker_index q = v \<and> settled q = None" ?p']
    show ?thesis
    proof (cases "v = ?w")
      case True
      with upd unp one w show ?thesis by (simp add: outstanding_def p_def)
    next
      case False
      with upd old v show ?thesis by (simp add: outstanding_def p_def)
    qed
  qed
  have a: "length (filter isBusy (workers ?s')) + 1 = length (filter isBusy (workers s))"
    using length_filter_update [OF w, of isBusy "(workers s ! ?w)\<lparr>isBusy := False\<rparr>"] busy
    by simp
  have b: "length (inFlight ?s') + 1 = length (inFlight s)"
    using length_filter_update [OF k, of "\<lambda>q. settled q = None" ?p'] unp
    by (simp add: inFlight_def p_def)
  from a b c have 5: "length (inFlight ?s') = length (filter isBusy (workers ?s'))"
    by (simp add: core_def)
  from 1 2 3 4 5 have core': "core cl toks ?s'" unfolding core_def by blast
  have "pc_ok ?s'"
  proof (cases "pc s")
    case (Resume i)
    with pcok w show ?thesis
      by (cases "i = ?w") (simp_all add: pc_ok_def)
  next
    case Sleeping
    with pcok show ?thesis by (simp add: pc_ok_def)
  next
    case Joining
    with pcok show ?thesis by (simp add: pc_ok_def)
  next
    case (Returned rs)
    with pcok have "map settled (completedTasks s) = map Some rs" by (simp add: pc_ok_def)
    then have "map settled (completedTasks s) ! k = map Some rs ! k" by simp
    moreover from \<open>map settled (completedTasks s) = map Some rs\<close>
    have "length rs = length (completedTasks s)" by (metis length_map)
    ultimately have False using k un by simp
    then show ?thesis ..
  qed
  with core' show ?thesis by (simp add: dist_inv_def)
qed

lemma step_inv:
  assumes inv: "dist_inv cl toks s" and st: "step e s = Some s'"
  shows "dist_inv cl toks s'"
proof (cases e)
  case Wake
  with st obtain i t rest where pc: "pc s = Resume i" and q: "taskQueue s = t # rest"
    and s': "s' = loop_head (executeTask i t (s\<lparr>taskQueue := rest\<rparr>))"
    by (auto split: pc.splits list.splits)
  from inv pc have "i < length (workers s)" "\<not> isBusy (workers s ! i)"
    by (simp_all add: dist_inv_def pc_ok_def)
  with inv q have "core cl toks (executeTask i t (s\<lparr>taskQueue := rest\<rparr>))"
    by (intro wake_core) (simp_all add: dist_inv_def)
  then show ?thesis unfolding s' by (rule loop_head_inv)
next
  case Timer
  with st have pc: "pc s = Sleeping" and s': "s' = checkAvailability s"
    by (auto split: pc.splits)
  from inv pc have "core cl toks s" "taskQueue s \<noteq> []"
    by (simp_all add: dist_inv_def pc_ok_def)
  then show ?thesis unfolding s' by (rule checkAvailability_inv)
next
  case (Reply k r)
  with st have k: "k < length (completedTasks s)" and un: "settled (completedTasks s ! k) = None"
    by (auto split: if_splits)
  show ?thesis
  proof (cases r)
    case None
    with st Reply k un reply_fail_inv [OF inv k un] show ?thesis by (simp add: Let_def)
  next
    case (Some b)
    with st Reply k un reply_ok_inv [OF inv k un, of b] show ?thesis by (simp add: Let_def)
  qed
next
  case Join
  with st have pc: "pc s = Joining"
    and all: "\<forall>p \<in> set (completedTasks s). settled p \<noteq> None"
    and s': "s' = s\<lparr>pc := Returned (map (\<lambda>p. the (settled p)) (completedTasks s))\<rparr>"
    by (auto split: pc.splits if_splits)
  from all have "map settled (completedTasks s)
      = map Some (map (\<lambda>p. the (settled p)) (completedTasks s))"
    by (induction "completedTasks s") auto
  with inv pc show ?thesis by (simp add: s' dist_inv_def pc_ok_def)
qed

lemma exec_inv:
  "dist_inv cl toks s \<Longrightarrow> exec es s = Some s' \<Longrightarrow> dist_inv cl toks s'"
proof (induction es arbitrary: s)
  case Nil
  then show ?case by simp
next
  case (Cons e es)
  then show ?case by (auto split: option.splits dest: step_inv)
qed

lemma exec_append:
  "exec (es @ es') s = (case exec es s of None \<Rightarrow> None | Some s' \<Rightarrow> exec es' s')"
  by (induction es arbitrary: s) (auto split: option.splits)


lemma can_settle:
  assumes "dist_inv cl toks s"
  shows "\<exists>es s'. exec es s = Some s' \<and> dist_inv cl toks s' \<and> inFlight s' = [] \<and>
           pc s' = pc s \<and> taskQueue s' = taskQueue s"
  using assms
proof (induction "length (inFlight s)" arbitrary: s)
  case 0
  then have "exec [] s = Some s \<and> dist_inv cl toks s \<and> inFlight s = []" by simp
  then show ?case by blast
next
  case (Suc n)
  from Suc.hyps(2) have "inFlight s \<noteq> []" by auto
  then obtain p where "p \<in> set (completedTasks s)" "settled p = None"
    by (auto simp: inFlight_def filter_empty_conv)
  then obtain k where k: "k < length (completedTasks s)"
    and un: "settled (completedTasks s ! k) = None"
    by (auto simp: in_set_conv_nth)
  define s1 where "s1 = s\<lparr>workers := (workers s)[worker_index (completedTasks s ! k)
              := (workers s ! worker_index (completedTasks s ! k))\<lparr>isBusy := False\<rparr>],
        completedTasks := (completedTasks s)[k := (completedTasks s ! k)\<lparr>settled := Some 0\<rparr>]\<rparr>"
  have st: "step (Reply k (Some 0)) s = Some s1"
    using k un by (simp add: s1_def Let_def)
  have inv1: "dist_inv cl toks s1" by (rule step_inv [OF Suc.prems st])
  have "length (inFlight s1) + 1 = length (inFlight s)"
    using length_filter_update [OF k, of "\<lambda>q. settled q = None"
        "(completedTasks s ! k)\<lparr>settled := Some 0\<rparr>"] un
    by (simp add: inFlight_def s1_def)
  with Suc.hyps(2) have "n = length (inFlight s1)" by simp
  from Suc.hyps(1) [OF this inv1] obtain es s' where
    "exec es s1 = Some s'" "dist_inv cl toks s'" "inFlight s' = []"
    "pc s' = pc s1" "taskQueue s' = taskQueue s1" by blast
  with st have "exec (Reply k (Some 0) # es) s = Some s' \<and> dist_inv cl toks s' \<and>
     inFlight s' = [] \<and> pc s' = pc s \<and> taskQueue s' = taskQueue s"
    by (simp add: s1_def)
  then show ?case by blast
qed

lemma taskQueue_checkAvailability [simp]: "taskQueue (checkAvailability s) = taskQueue s"
  by (simp add: checkAvailability_def split: option.splits)

lemma taskQueue_loop_head [simp]: "taskQueue (loop_head s) = taskQueue s"
  by (simp add: loop_head_def)

lemma wake_progress:
  assumes inv: "dist_inv cl toks s" and pc: "pc s = Resume i"
  shows "\<exists>s'. step Wake s = Some s' \<and> dist_inv cl toks s' \<and>
           length (taskQueue s') < length (taskQueue s)"
proof -
  from inv pc obtain t rest where q: "taskQueue s = t # rest"
    by (cases "taskQueue s") (auto simp: dist_inv_def pc_ok_def)
  let ?s' = "loop_head (executeTask i t (s\<lparr>taskQueue := rest\<rparr>))"
  have st: "step Wake s = Some ?s'" using pc q by simp
  have "taskQueue ?s' = rest" by (simp add: executeTask_def)
  with q st step_inv [OF inv st] show ?thesis by simp
qed

lemma can_return:
  assumes "dist_inv cl toks s" and "toks \<noteq> []"
  shows "\<exists>es s' rs. exec es s = Some s' \<and> pc s' = Returned rs"
  using assms(1)
proof (induction "length (taskQueue s)" arbitrary: s rule: less_induct)
  case less
  note inv = less.prems
  have resume: "\<exists>es s' rs. exec es s0 = Some s' \<and> pc s' = Returned rs"
    if inv0: "dist_inv cl toks s0" and pc0: "pc s0 = Resume i"
      and q0: "taskQueue s0 = taskQueue s" for s0 i
  proof -
    from wake_progress [OF inv0 pc0] obtain s1 where st: "step Wake s0 = Some s1"
      and inv1: "dist_inv cl toks s1" and lt: "length (taskQueue s1) < length (taskQueue s0)"
      by blast
    from lt q0 have "length (taskQueue s1) < length (taskQueue s)" by simp
    from less.hyps [OF this inv1] obtain es s' rs where
      "exec es s1 = Some s'" "pc s' = Returned rs" by blast
    with st have "exec (Wake # es) s0 = Some s' \<and> pc s' = Returned rs" by simp
    then show ?thesis by blast
  qed
  show ?case
  proof (cases "pc s")
    case (Returned rs)
    then have "exec [] s = Some s \<and> pc s = Returned rs" by simp
    then show ?thesis by blast
  next
    case (Resume i)
    from resume [OF inv Resume] show ?thesis by simp
  next
    case Joining
    from can_settle [OF inv] obtain es s1 where ex: "exec es s = Some s1"
      and fl: "inFlight s1 = []" and pc1: "pc s1 = pc s" by blast
    from fl have "\<forall>p \<in> set (completedTasks s1). settled p \<noteq> None"
      by (simp add: inFlight_def filter_empty_conv)
    with pc1 Joining have "step Join s1
        = Some (s1\<lparr>pc := Returned (map (\<lambda>p. the (settled p)) (completedTasks s1))\<rparr>)"
      by simp
    with ex have "exec (es @ [Join]) s
        = Some (s1\<lparr>pc := Returned (map (\<lambda>p. the (settled p)) (completedTasks s1))\<rparr>)"
      by (simp add: exec_append)
    then show ?thesis by force
  next
    case Sleeping
    from can_settle [OF inv] obtain es s1 where ex: "exec es s = Some s1"
      and inv1: "dist_inv cl toks s1" and fl: "inFlight s1 = []"
      and pc1: "pc s1 = pc s" and q1: "taskQueue s1 = taskQueue s" by blast
    from inv1 fl have "filter isBusy (workers s1) = []"
      by (simp add: dist_inv_def core_def)
    moreover from inv1 assms(2) have "workers s1 \<noteq> []"
      by (auto simp: dist_inv_def core_def)
    ultimately have "findIndex (\<lambda>worker. \<not> isBusy worker) (workers s1) \<noteq> None"
      by (cases "workers s1") (auto simp: findIndex_None filter_empty_conv)
    then obtain i where "pc (checkAvailability s1) = Resume i"
      by (auto simp: checkAvailability_def)
    moreover have st: "step Timer s1 = Some (checkAvailability s1)"
      using pc1 Sleeping by simp
    moreover note inv2 = step_inv [OF inv1 st]
    ultimately obtain es2 s' rs where "exec es2 (checkAvailability s1) = Some s'"
      "pc s' = Returned rs"
      using resume [of "checkAvailability s1" i] q1 by auto
    with ex st have "exec (es @ Timer # es2) s = Some s' \<and> pc s' = Returned rs"
      by (simp add: exec_append)
    then show ?thesis by blast
  qed
qed

lemma exec_snoc:
  "exec (es @ [e]) s = Some s' \<longleftrightarrow> (\<exists>s1. exec es s = Some s1 \<and> step e s1 = Some s')"
  by (auto simp: exec_append split: option.splits)

lemma sum_list_update_attempts:
  "k < length ps \<Longrightarrow>
   sum_list (map attempts (ps[k := (ps ! k)\<lparr>attempts := attempts (ps ! k) + 1\<rparr>]))
     = sum_list (map attempts ps) + 1"
proof (induction ps arbitrary: k)
  case Nil
  then show ?case by simp
next
  case (Cons p ps)
  then show ?case by (cases k) simp_all
qed

lemma sum_list_update_settled:
  "k < length ps \<Longrightarrow>
   map attempts (ps[k := (ps ! k)\<lparr>settled := v\<rparr>]) = map attempts ps"
  by (simp add: map_update list_update_same_conv)

text \<open>
  The retry loop inside the distributor agrees with \<open>getBalanceOf\<close>: in every run,
  a promise has issued one \<open>balanceOf\<close> call and one more for each failed reply it
  received, and the calls of the run are those of its promises.
\<close>

lemma attempts_count_failures:
  assumes "exec es (distributeTasks_start ws contractList) = Some s"
  shows "(\<forall>k < length (completedTasks s).
            attempts (completedTasks s ! k) = Suc (count_list es (Reply k None))) \<and>
         (\<forall>k \<ge> length (completedTasks s). count_list es (Reply k None) = 0) \<and>
         length (balanceOf_calls s) = sum_list (map attempts (completedTasks s))"
  using assms
proof (induction es arbitrary: s rule: rev_induct)
  case Nil
  then show ?case
    by (auto simp: distributeTasks_start_def loop_head_def checkAvailability_def
        split: option.splits if_splits)
next
  case (snoc e es)
  from snoc.prems obtain s1 where ex: "exec es (distributeTasks_start ws contractList) = Some s1"
    and st: "step e s1 = Some s"
    by (auto simp: exec_snoc)
  note IH = snoc.IH [OF ex]
  show ?case
  proof (cases e)
    case Wake
    with st obtain i t rest where
      s: "s = loop_head (executeTask i t (s1\<lparr>taskQueue := rest\<rparr>))"
      by (auto split: pc.splits list.splits)
    have cs: "completedTasks s = completedTasks s1 @
          [\<lparr>worker_index = i, task_address = t, attempts = 1, settled = None\<rparr>]"
      and bc: "balanceOf_calls s = balanceOf_calls s1 @ [(token (workers s1 ! i), t)]"
      unfolding s
      by (simp_all add: loop_head_def checkAvailability_def executeTask_def split: option.splits)
    from IH show ?thesis by (auto simp: cs bc Wake nth_append)
  next
    case Timer
    with st have "completedTasks s = completedTasks s1" "balanceOf_calls s = balanceOf_calls s1"
      by (auto simp: checkAvailability_def split: pc.splits option.splits)
    with IH Timer show ?thesis by simp
  next
    case Join
    with st have "completedTasks s = completedTasks s1" "balanceOf_calls s = balanceOf_calls s1"
      by (auto split: pc.splits if_splits)
    with IH Join show ?thesis by simp
  next
    case (Reply k r)
    with st have k: "k < length (completedTasks s1)"
      by (auto split: if_splits)
    show ?thesis
    proof (cases r)
      case None
      with st Reply k have
        cs: "completedTasks s = (completedTasks s1)[k := (completedTasks s1 ! k)
               \<lparr>attempts := attempts (completedTasks s1 ! k) + 1\<rparr>]"
        and bc: "length (balanceOf_calls s) = length (balanceOf_calls s1) + 1"
        by (auto simp: Let_def split: if_splits)
      have sl: "sum_list (map attempts (completedTasks s))
          = sum_list (map attempts (completedTasks s1)) + 1"
        unfolding cs using k by (rule sum_list_update_attempts)
      have len: "length (completedTasks s) = length (completedTasks s1)" by (simp add: cs)
      have at: "attempts (completedTasks s ! j)
          = attempts (completedTasks s1 ! j) + (if j = k then 1 else 0)"
        if "j < length (completedTasks s1)" for j
        using that by (simp add: cs nth_list_update)
      from IH k show ?thesis
        unfolding sl bc len Reply None
        by (auto simp: at)
    next
      case (Some b)
      with st Reply k have
        cs: "completedTasks s = (completedTasks s1)[k := (completedTasks s1 ! k)
               \<lparr>settled := Some b\<rparr>]"
        and bc: "balanceOf_calls s = balanceOf_calls s1"
        by (auto simp: Let_def split: if_splits)
      from IH k show ?thesis
        unfolding cs bc Reply Some
        by (auto simp: nth_list_update sum_list_update_settled)
    qed
  qed
qed


lemma pc_checkAvailability: "\<exists>i. pc (checkAvailability s) = Resume i \<or> pc (checkAvailability s) = Sleeping"
  by (simp add: checkAvailability_def split: option.splits)

lemma inFlight_checkAvailability [simp]: "inFlight (checkAvailability s) = inFlight s"
  by (simp add: checkAvailability_def inFlight_def split: option.splits)

lemma inFlight_loop_head [simp]: "inFlight (loop_head s) = inFlight s"
  by (cases "taskQueue s = []") (simp_all add: loop_head_def, simp add: inFlight_def)

lemma remaining_checkAvailability:
  "remaining (checkAvailability s) = 2 * length (taskQueue s) + length (inFlight s) + 1"
  using pc_checkAvailability [of s] by (auto simp: remaining_def)

lemma remaining_loop_head:
  "remaining (loop_head s) = 2 * length (taskQueue s) + length (inFlight s) + 1"
  by (simp add: loop_head_def remaining_checkAvailability) (simp add: remaining_def inFlight_def)

lemma step_remaining:
  assumes inv: "dist_inv cl toks s" and st: "step e s = Some s'"
  shows "remaining s' + (if productive e then 1 else 0) = remaining s"
proof (cases e)
  case Wake
  with st obtain i t rest where pc: "pc s = Resume i" and q: "taskQueue s = t # rest"
    and s': "s' = loop_head (executeTask i t (s\<lparr>taskQueue := rest\<rparr>))"
    by (auto split: pc.splits list.splits)
  have "remaining s' = 2 * length rest + (length (inFlight s) + 1) + 1"
    unfolding s' remaining_loop_head by (simp add: executeTask_def inFlight_def)
  with pc q Wake show ?thesis by (simp add: remaining_def)
next
  case Timer
  with st have pc: "pc s = Sleeping" and s': "s' = checkAvailability s"
    by (auto split: pc.splits)
  with Timer show ?thesis by (simp add: remaining_checkAvailability) (simp add: remaining_def)
next
  case (Reply k r)
  with st have k: "k < length (completedTasks s)" and un: "settled (completedTasks s ! k) = None"
    by (auto split: if_splits)
  show ?thesis
  proof (cases r)
    case None
    have "length (inFlight s') = length (inFlight s)"
      using st Reply None k un
        length_filter_update [OF k, of "\<lambda>q. settled q = None"
          "(completedTasks s ! k)\<lparr>attempts := attempts (completedTasks s ! k) + 1\<rparr>"]
      by (auto simp: inFlight_def Let_def)
    moreover have "pc s' = pc s" "taskQueue s' = taskQueue s"
      using st Reply None k un by (auto simp: Let_def)
    ultimately show ?thesis using Reply None by (simp add: remaining_def)
  next
    case (Some b)
    have "length (inFlight s') + 1 = length (inFlight s)"
      using st Reply Some k un
        length_filter_update [OF k, of "\<lambda>q. settled q = None"
          "(completedTasks s ! k)\<lparr>settled := Some b\<rparr>"]
      by (auto simp: inFlight_def Let_def)
    moreover have "pc s' = pc s" "taskQueue s' = taskQueue s"
      using st Reply Some k un by (auto simp: Let_def)
    ultimately show ?thesis using Reply Some by (simp add: remaining_def)
  qed
next
  case Join
  with st have pc: "pc s = Joining"
    and s': "s' = s\<lparr>pc := Returned (map (\<lambda>p. the (settled p)) (completedTasks s))\<rparr>"
    by (auto split: pc.splits if_splits)
  with Join show ?thesis by (simp add: remaining_def inFlight_def)
qed

lemma exec_remaining:
  "dist_inv cl toks s \<Longrightarrow> exec es s = Some s' \<Longrightarrow>
   remaining s' + length (filter productive es) = remaining s"
proof (induction es arbitrary: s)
  case Nil
  then show ?case by simp
next
  case (Cons e es)
  from Cons.prems(2) obtain s1 where st: "step e s = Some s1" and ex: "exec es s1 = Some s'"
    by (auto split: option.splits)
  from step_inv [OF Cons.prems(1) st] have inv1: "dist_inv cl toks s1" .
  from Cons.IH [OF inv1 ex] step_remaining [OF Cons.prems(1) st] show ?case
    by (cases "productive e") simp_all
qed

lemma remaining_start:
  "remaining (distributeTasks_start ws cl) = 2 * length cl + 1"
  by (simp add: distributeTasks_start_def remaining_loop_head inFlight_def)

lemma returned_iff_remaining:
  assumes "dist_inv cl toks s"
  shows "(\<exists>balances. pc s = Returned balances) \<longleftrightarrow> remaining s = 0"
proof
  assume "\<exists>balances. pc s = Returned balances"
  then obtain rs where rs: "pc s = Returned rs" by blast
  with assms have q: "taskQueue s = []" and m: "map settled (completedTasks s) = map Some rs"
    by (simp_all add: dist_inv_def pc_ok_def)
  have "settled p \<noteq> None" if "p \<in> set (completedTasks s)" for p
  proof -
    from that have "settled p \<in> set (map settled (completedTasks s))" by simp
    then show ?thesis unfolding m by auto
  qed
  then have "inFlight s = []" by (simp add: inFlight_def filter_empty_conv)
  with q rs show "remaining s = 0" by (simp add: remaining_def)
next
  assume "remaining s = 0"
  then show "\<exists>balances. pc s = Returned balances"
    by (cases "pc s") (simp_all add: remaining_def)
qed


text \<open>
  C1. Take a pool of \<open>N \<ge> 1\<close> idle workers, any address list, and any run of
  \<open>distributeTasks\<close>, that is, any order in which timers fire and queries fail or
  complete. \<open>distributeTasks\<close> has returned exactly when every task has been assigned,
  every query has succeeded and the continuation of \<open>Promise.all\<close> has run, and a run
  that has not returned can always be continued to one that does. Whenever it has
  returned, the balances have the length of the input, and position \<open>i\<close> holds the
  balance with which the query for the address at position \<open>i\<close> of the input resolved,
  whichever worker of the pool served it.
\<close>

theorem distributeTasks_results_in_input_order:
  assumes "\<forall>w \<in> set ws. \<not> isBusy w" and "ws \<noteq> []"
    and "exec es (distributeTasks_start ws contractList) = Some s"
  shows "((\<exists>balances. pc s = Returned balances) \<longleftrightarrow>
            length (filter productive es) = 2 * length contractList + 1) \<and>
         (\<exists>es' s' balances. exec (es @ es') (distributeTasks_start ws contractList) = Some s' \<and>
            pc s' = Returned balances) \<and>
         (\<forall>balances. pc s = Returned balances \<longrightarrow>
            length balances = length contractList \<and>
            (\<forall>i < length contractList.
               task_address (completedTasks s ! i) = contractList ! i \<and>
               settled (completedTasks s ! i) = Some (balances ! i) \<and>
               worker_index (completedTasks s ! i) < length ws))"
proof -
  have inv: "dist_inv contractList (map token ws) s"
    by (rule exec_inv [OF start_inv [OF assms(1)] assms(3)])
  from can_return [OF inv] assms(2) obtain es' s' rs where
    "exec es' s = Some s'" "pc s' = Returned rs" by auto
  with assms(3) have "exec (es @ es') (distributeTasks_start ws contractList) = Some s' \<and>
      pc s' = Returned rs"
    by (simp add: exec_append)
  then have A: "\<exists>es' s' balances.
      exec (es @ es') (distributeTasks_start ws contractList) = Some s' \<and>
      pc s' = Returned balances" by blast
  have B: "length balances = length contractList \<and>
            (\<forall>i < length contractList.
               task_address (completedTasks s ! i) = contractList ! i \<and>
               settled (completedTasks s ! i) = Some (balances ! i) \<and>
               worker_index (completedTasks s ! i) < length ws)"
    if ret: "pc s = Returned balances" for balances
  proof -
    from inv ret have q: "taskQueue s = []"
      and st: "map settled (completedTasks s) = map Some balances"
      by (simp_all add: dist_inv_def pc_ok_def)
    from inv q have ad: "map task_address (completedTasks s) = contractList"
      and wi: "\<forall>p \<in> set (completedTasks s). worker_index p < length (workers s)"
      and tk: "map token (workers s) = map token ws"
      by (simp_all add: dist_inv_def core_def)
    from ad have l1: "length (completedTasks s) = length contractList" by (metis length_map)
    from st have l2: "length (completedTasks s) = length balances" by (metis length_map)
    from tk have l3: "length (workers s) = length ws" by (metis length_map)
    have "task_address (completedTasks s ! i) = contractList ! i \<and>
          settled (completedTasks s ! i) = Some (balances ! i) \<and>
          worker_index (completedTasks s ! i) < length ws"
      if "i < length contractList" for i
    proof -
      from that l1 have i: "i < length (completedTasks s)" by simp
      from ad have "map task_address (completedTasks s) ! i = contractList ! i" by simp
      moreover from st have "map settled (completedTasks s) ! i = map Some balances ! i" by simp
      moreover from wi i l3 have "worker_index (completedTasks s ! i) < length ws" by simp
      ultimately show ?thesis using i l2 by simp
    qed
    with l1 l2 show ?thesis by simp
  qed
  have C: "(\<exists>balances. pc s = Returned balances) \<longleftrightarrow>
            length (filter productive es) = 2 * length contractList + 1"
    using exec_remaining [OF start_inv [OF assms(1)] assms(3)]
      returned_iff_remaining [OF inv] remaining_start [of ws contractList]
    by auto
  from A B C show ?thesis by blast
qed

theorem distributeTasks_results_in_input_order_witness:
  "map isBusy example_pool = [False, False] \<and> example_pool \<noteq> [] \<and>
   (\<exists>s. exec example_run (distributeTasks_start example_pool [''0xA'', ''0xB'', ''0xC'']) = Some s \<and>
     pc s = Returned [10, 20, 30] \<and>
     map task_address (completedTasks s) = [''0xA'', ''0xB'', ''0xC''] \<and>
     map settled (completedTasks s) = [Some 10, Some 20, Some 30] \<and>
     map worker_index (completedTasks s) = [0, 1, 1] \<and>
     (\<forall>i < length [''0xA'', ''0xB'', ''0xC''].
            task_address (completedTasks s ! i) = [''0xA'', ''0xB'', ''0xC''] ! i \<and>
            settled (completedTasks s ! i) = Some ([10, 20, 30] ! i) \<and>
            worker_index (completedTasks s ! i) < length example_pool))"
proof -
  have idle: "\<forall>w \<in> set example_pool. \<not> isBusy w" and ne: "example_pool \<noteq> []"
    by (simp_all add: example_pool_def)
  obtain s where run: "exec example_run
      (distributeTasks_start example_pool [''0xA'', ''0xB'', ''0xC'']) = Some s"
    and ret: "pc s = Returned [10, 20, 30]"
    and m: "map task_address (completedTasks s) = [''0xA'', ''0xB'', ''0xC'']"
       "map settled (completedTasks s) = [Some 10, Some 20, Some 30]"
       "map worker_index (completedTasks s) = [0, 1, 1]"
    by (simp add: example_run_def example_pool_def distributeTasks_start_def loop_head_def
        checkAvailability_def executeTask_def)
  from distributeTasks_results_in_input_order [OF idle ne run] ret
  have "\<forall>i < length [''0xA'', ''0xB'', ''0xC''].
            task_address (completedTasks s ! i) = [''0xA'', ''0xB'', ''0xC''] ! i \<and>
            settled (completedTasks s ! i) = Some ([10, 20, 30] ! i) \<and>
            worker_index (completedTasks s ! i) < length example_pool"
    by blast
  with run ret m have "\<exists>s. exec example_run
        (distributeTasks_start example_pool [''0xA'', ''0xB'', ''0xC'']) = Some s \<and>
     pc s = Returned [10, 20, 30] \<and>
     map task_address (completedTasks s) = [''0xA'', ''0xB'', ''0xC''] \<and>
     map settled (completedTasks s) = [Some 10, Some 20, Some 30] \<and>
     map worker_index (completedTasks s) = [0, 1, 1] \<and>
     (\<forall>i < length [''0xA'', ''0xB'', ''0xC''].
            task_address (completedTasks s ! i) = [''0xA'', ''0xB'', ''0xC''] ! i \<and>
            settled (completedTasks s ! i) = Some ([10, 20, 30] ! i) \<and>
            worker_index (completedTasks s ! i) < length example_pool)"
    by (rule_tac x = s in exI) (intro conjI; assumption)
  then have "example_pool \<noteq> [] \<and> (\<exists>s. exec example_run
        (distributeTasks_start example_pool [''0xA'', ''0xB'', ''0xC'']) = Some s \<and>
     pc s = Returned [10, 20, 30] \<and>
     map task_address (completedTasks s) = [''0xA'', ''0xB'', ''0xC''] \<and>
     map settled (completedTasks s) = [Some 10, Some 20, Some 30] \<and>
     map worker_index (completedTasks s) = [0, 1, 1] \<and>
     (\<forall>i < length [''0xA'', ''0xB'', ''0xC''].
            task_address (completedTasks s ! i) = [''0xA'', ''0xB'', ''0xC''] ! i \<and>
            settled (completedTasks s ! i) = Some ([10, 20, 30] ! i) \<and>
            worker_index (completedTasks s ! i) < length example_pool))"
    using ne by (rule_tac conjI)
  moreover have "map isBusy example_pool = [False, False]" by (simp add: example_pool_def)
  ultimately show ?thesis by (rule_tac conjI)
qed


text \<open>
  C2. At every point of every run of \<open>distributeTasks\<close> over a pool of \<open>N\<close> idle workers,
  at most \<open>N\<close> queries are in flight and no worker has more than one outstanding query;
  a worker's \<open>isBusy\<close> flag is set exactly while it has an outstanding query, and the
  worker the distributor is about to assign a task to is idle.
\<close>

theorem distributeTasks_bounded_concurrency:
  assumes "\<forall>w \<in> set ws. \<not> isBusy w"
    and "exec es (distributeTasks_start ws contractList) = Some s"
  shows "length (inFlight s) \<le> length ws \<and>
         (\<forall>w. length (outstanding s w) \<le> 1) \<and>
         (\<forall>w < length ws. isBusy (workers s ! w) \<longleftrightarrow> outstanding s w \<noteq> []) \<and>
         (\<forall>i. pc s = Resume i \<longrightarrow> i < length ws \<and> \<not> isBusy (workers s ! i))"
proof -
  have inv: "dist_inv contractList (map token ws) s"
    by (rule exec_inv [OF start_inv [OF assms(1)] assms(2)])
  then have tk: "map token (workers s) = map token ws"
    and wi: "\<forall>p \<in> set (completedTasks s). worker_index p < length (workers s)"
    and out: "\<forall>w < length (workers s).
        length (outstanding s w) = (if isBusy (workers s ! w) then 1 else 0)"
    and cnt: "length (inFlight s) = length (filter isBusy (workers s))"
    and pcok: "pc_ok s"
    by (simp_all add: dist_inv_def core_def)
  from tk have l: "length (workers s) = length ws" by (metis length_map)
  have 1: "length (inFlight s) \<le> length ws"
    using cnt l length_filter_le [of isBusy "workers s"] by simp
  have 2: "length (outstanding s w) \<le> 1" for w
  proof (cases "w < length (workers s)")
    case True
    with out show ?thesis by simp
  next
    case False
    with wi have "outstanding s w = []"
      by (auto simp: outstanding_def filter_empty_conv)
    then show ?thesis by simp
  qed
  have 3: "isBusy (workers s ! w) \<longleftrightarrow> outstanding s w \<noteq> []" if "w < length ws" for w
  proof -
    from that l out have "length (outstanding s w) = (if isBusy (workers s ! w) then 1 else 0)"
      by simp
    then show ?thesis by (cases "outstanding s w") (auto split: if_splits)
  qed
  have 4: "i < length ws \<and> \<not> isBusy (workers s ! i)" if "pc s = Resume i" for i
    using pcok that l by (simp add: pc_ok_def)
  from 1 2 3 4 show ?thesis by blast
qed


theorem distributeTasks_bounded_concurrency_witness:
  "map isBusy example_pool = [False, False] \<and>
   (\<exists>s. exec [Wake, Wake, Reply 0 None] (distributeTasks_start example_pool [''0xA'', ''0xB'', ''0xC'']) = Some s \<and>
     length (inFlight s) = 2 \<and> pc s = Sleeping \<and>
     length (inFlight s) \<le> length example_pool \<and>
         (\<forall>w. length (outstanding s w) \<le> 1) \<and>
         (\<forall>w < length example_pool. isBusy (workers s ! w) \<longleftrightarrow> outstanding s w \<noteq> []) \<and>
         (\<forall>i. pc s = Resume i \<longrightarrow> i < length example_pool \<and> \<not> isBusy (workers s ! i)))"
proof -
  have idle: "\<forall>w \<in> set example_pool. \<not> isBusy w"
    by (simp add: example_pool_def)
  obtain s where run: "exec [Wake, Wake, Reply 0 None]
      (distributeTasks_start example_pool [''0xA'', ''0xB'', ''0xC'']) = Some s"
    and two: "length (inFlight s) = 2" "pc s = Sleeping"
    by (simp add: example_pool_def distributeTasks_start_def loop_head_def
        checkAvailability_def executeTask_def inFlight_def)
  from distributeTasks_bounded_concurrency [OF idle run] run two
  have "\<exists>s. exec [Wake, Wake, Reply 0 None]
        (distributeTasks_start example_pool [''0xA'', ''0xB'', ''0xC'']) = Some s \<and>
     length (inFlight s) = 2 \<and> pc s = Sleeping \<and>
     length (inFlight s) \<le> length example_pool \<and>
         (\<forall>w. length (outstanding s w) \<le> 1) \<and>
         (\<forall>w < length example_pool. isBusy (workers s ! w) \<longleftrightarrow> outstanding s w \<noteq> []) \<and>
         (\<forall>i. pc s = Resume i \<longrightarrow> i < length example_pool \<and> \<not> isBusy (workers s ! i))"
    by (rule_tac x = s in exI) (elim conjE, intro conjI; assumption)
  moreover have "map isBusy example_pool = [False, False]" by (simp add: example_pool_def)
  ultimately show ?thesis by (rule_tac conjI)
qed



subsection \<open>The working list of a scan\<close>

lemma splice_is_remove1:
  "findIndex (\<lambda>a. a = ex) xs = Some i \<Longrightarrow> take i xs @ drop (Suc i) xs = remove1 ex xs"
  by (induction xs arbitrary: i) (auto split: if_splits)

lemma findIndex_absent:
  "findIndex (\<lambda>a. a = ex) xs = None \<Longrightarrow> remove1 ex xs = xs"
  by (induction xs) (auto split: if_splits)

lemma exclude_one_remove1:
  "l < length h \<Longrightarrow> exclude_one l h ex = h[l := remove1 ex (h ! l)]"
  by (cases "findIndex (\<lambda>a. a = ex) (h ! l)")
     (simp_all add: exclude_one_def splice_is_remove1 findIndex_absent)

lemma exclusions_remove1:
  "l < length h \<Longrightarrow>
   foldl (exclude_one l) h excluded = h[l := foldl (\<lambda>xs ex. remove1 ex xs) (h ! l) excluded]"
  by (induction excluded arbitrary: h) (simp_all add: exclude_one_remove1)

lemma subseq_remove1: "subseq (remove1 x xs) xs"
  by (induction xs) auto

lemma subseq_exclusions: "subseq (foldl (\<lambda>xs ex. remove1 ex xs) xs excluded) xs"
proof (induction excluded arbitrary: xs)
  case Nil
  then show ?case by simp
next
  case (Cons ex excluded)
  have "subseq (foldl (\<lambda>xs ex. remove1 ex xs) (remove1 ex xs) excluded) (remove1 ex xs)"
    by (rule Cons.IH)
  then show ?case using subseq_remove1 [of ex xs] by (auto intro: subseq_order.trans)
qed

lemma count_exclusions:
  "count_list (foldl (\<lambda>xs ex. remove1 ex xs) xs excluded) a
     = count_list xs a - count_list excluded a"
  by (induction excluded arbitrary: xs) auto

lemma count_list_distinct:
  "distinct xs \<Longrightarrow> count_list xs a = (if a \<in> set xs then 1 else 0)"
  by (induction xs) auto

lemma working_list_eq:
  "working_list cfg h contractList tokenAddress =
     (length h,
      h @ [case excludedMap cfg tokenAddress of
             Some excluded \<Rightarrow> foldl (\<lambda>xs ex. remove1 ex xs) (h ! contractList) excluded
           | None \<Rightarrow> h ! contractList])"
  by (simp add: working_list_def spread_def exclusions_remove1 split: option.splits)

text \<open>
  C7. \<open>processOneToken\<close> copies the list and, for each address that \<open>excludedMap\<close>
  gives for this token, removes its first occurrence from the copy when there is one
  and does nothing otherwise. What remains keeps its order, and each address has lost
  as many occurrences as the exclusions name it (one, when they name it once). For a
  token with no entry in \<open>excludedMap\<close> the working list is the list itself.
\<close>

theorem processOneToken_exclusions:
  assumes "working_list cfg h contractList tokenAddress = (localList, h')"
  shows "(\<forall>excluded. excludedMap cfg tokenAddress = Some excluded \<longrightarrow>
            h' ! localList = foldl (\<lambda>xs ex. remove1 ex xs) (h ! contractList) excluded \<and>
            subseq (h' ! localList) (h ! contractList) \<and>
            (\<forall>a. count_list (h' ! localList) a =
                   count_list (h ! contractList) a - count_list excluded a) \<and>
            (distinct excluded \<longrightarrow>
               (\<forall>a. count_list (h' ! localList) a =
                  (if a \<in> set excluded then count_list (h ! contractList) a - 1
                   else count_list (h ! contractList) a)))) \<and>
         (excludedMap cfg tokenAddress = None \<longrightarrow> h' ! localList = h ! contractList)"
proof -
  from assms have l: "localList = length h"
    and h': "h' = h @ [case excludedMap cfg tokenAddress of
             Some excluded \<Rightarrow> foldl (\<lambda>xs ex. remove1 ex xs) (h ! contractList) excluded
           | None \<Rightarrow> h ! contractList]"
    by (auto simp: working_list_eq)
  have none: "h' ! localList = h ! contractList" if "excludedMap cfg tokenAddress = None"
    using that by (simp add: l h')
  have some: "h' ! localList = foldl (\<lambda>xs ex. remove1 ex xs) (h ! contractList) excluded"
    if "excludedMap cfg tokenAddress = Some excluded" for excluded
    using that by (simp add: l h')
  have cnt: "count_list (h' ! localList) a =
      (if a \<in> set excluded then count_list (h ! contractList) a - 1
       else count_list (h ! contractList) a)"
    if "excludedMap cfg tokenAddress = Some excluded" "distinct excluded" for excluded a
  proof -
    from that(2) have "count_list excluded a = (if a \<in> set excluded then 1 else 0)"
      by (rule count_list_distinct)
    then show ?thesis by (simp add: some [OF that(1)] count_exclusions)
  qed
  show ?thesis
    using none some cnt by (auto simp: subseq_exclusions count_exclusions)
qed


theorem processOneToken_exclusions_witness:
  "working_list example_config example_heap 0 ''0xToken''
     = (1, [[''0xA'', ''0xB'', ''0xC'', ''0xB''], [''0xA'', ''0xC'', ''0xB'']]) \<and>
   subseq [''0xA'', ''0xC'', ''0xB''] [''0xA'', ''0xB'', ''0xC'', ''0xB''] \<and>
   count_list [''0xA'', ''0xC'', ''0xB''] ''0xB'' = 1 \<and>
   working_list example_config example_heap 0 ''0xOther''
     = (1, [[''0xA'', ''0xB'', ''0xC'', ''0xB''], [''0xA'', ''0xB'', ''0xC'', ''0xB'']])"
proof -
  have run: "working_list example_config example_heap 0 ''0xToken''
     = (1, [[''0xA'', ''0xB'', ''0xC'', ''0xB''], [''0xA'', ''0xC'', ''0xB'']])"
    and other: "working_list example_config example_heap 0 ''0xOther''
     = (1, [[''0xA'', ''0xB'', ''0xC'', ''0xB''], [''0xA'', ''0xB'', ''0xC'', ''0xB'']])"
    by (simp_all add: working_list_def spread_def exclude_one_def example_config_def
        example_heap_def)
  have ex: "excludedMap example_config ''0xToken'' = Some [''0xB'', ''0xZ'']"
    by (simp add: example_config_def)
  from processOneToken_exclusions [OF run] ex
  have "subseq ([[''0xA'', ''0xB'', ''0xC'', ''0xB''], [''0xA'', ''0xC'', ''0xB'']] ! 1)
          (example_heap ! 0) \<and>
        count_list ([[''0xA'', ''0xB'', ''0xC'', ''0xB''], [''0xA'', ''0xC'', ''0xB'']] ! 1) ''0xB''
          = count_list (example_heap ! 0) ''0xB'' - count_list [''0xB'', ''0xZ''] ''0xB''"
    by blast
  then have "subseq [''0xA'', ''0xC'', ''0xB''] [''0xA'', ''0xB'', ''0xC'', ''0xB''] \<and>
      count_list [''0xA'', ''0xC'', ''0xB''] ''0xB'' = 1"
    by (simp add: example_heap_def)
  with run other show ?thesis by simp
qed


subsection \<open>The metadata and the result of a scan\<close>

lemma ticker_tries_valid:
  "snd (ticker_tries env a) = Some True \<or> snd (ticker_tries env a) = Some False"
  by (auto simp: ticker_tries_def Let_def no_ticker_def split: option.splits)


lemma getTokenInfo_invalid:
  assumes "snd (ticker_tries env a) \<noteq> Some True"
  shows "getTokenInfo cfg env a =
           Inr \<lparr>address = a, ticker = fst (ticker_tries env a), valid = Some False,
                decimals = (case decimals_call env a of
                              None \<Rightarrow> Num 18
                            | Some x \<Rightarrow> if x = NaN \<or> x = Num 0 then Num 18 else x),
                price = Num 0\<rparr>"
proof -
  from assms ticker_tries_valid [of env a] have "snd (ticker_tries env a) = Some False" by auto
  then show ?thesis
    by (cases "ticker_tries env a")
      (simp add: getTokenInfo_def price_requests_def split: option.splits)
qed

lemma getTokenInfo_example:
  "getTokenInfo example_config example_env ''0xToken''
     = Inr \<lparr>address = ''0xToken'', ticker = Some ''TKN'', valid = Some True,
            decimals = Num 18, price = Num 0\<rparr>"
  by (simp add: getTokenInfo_def ticker_tries_def price_requests_def example_env_def
      no_ticker_def)

lemma getTokenInfo_example_other:
  "getTokenInfo example_config example_env ''0xOther''
     = Inr \<lparr>address = ''0xOther'', ticker = Some ''unknown'', valid = Some False,
            decimals = Num 18, price = Num 0\<rparr>"
  by (simp add: getTokenInfo_def ticker_tries_def price_requests_def example_env_def
      no_ticker_def)

text \<open>
  C10. \<open>processOneToken\<close> leaves every array the caller holds as it was, the address
  list first of all: the removals happen in the copy made on line 287, for a valid and
  for an invalid token alike, and no array is touched when \<open>getTokenInfo\<close> throws.
\<close>

theorem processOneToken_keeps_caller_list:
  assumes "contractList < length h"
    and "processOneToken cfg env toString web3 h contractList tokenAddress es = (out, calls, h')"
  shows "h' ! contractList = h ! contractList \<and> (\<forall>r < length h. h' ! r = h ! r)"
proof -
  have "snd (snd (processOneToken cfg env toString web3 h contractList tokenAddress es)) = h \<or>
        snd (snd (processOneToken cfg env toString web3 h contractList tokenAddress es))
          = snd (working_list cfg h contractList tokenAddress)"
    by (simp add: processOneToken_def Let_def split: sum.splits prod.splits outcome.splits)
  with assms(2) have "h' = h \<or> h' = snd (working_list cfg h contractList tokenAddress)" by simp
  then have "\<forall>r < length h. h' ! r = h ! r" by (auto simp: working_list_eq nth_append)
  with assms(1) show ?thesis by simp
qed

theorem processOneToken_keeps_caller_list_witness:
  "0 < length example_heap \<and>
   snd (snd (processOneToken example_config example_env (\<lambda>x. ''1'') ''https://rpc.example''
               example_heap 0 ''0xToken'' [Wake])) ! 0 = [''0xA'', ''0xB'', ''0xC'', ''0xB''] \<and>
   snd (snd (processOneToken example_config example_env (\<lambda>x. ''1'') ''https://rpc.example''
               example_heap 0 ''0xToken'' [Wake])) ! 1 = [''0xA'', ''0xC'', ''0xB'']"
proof -
  have l: "0 < length example_heap" by (simp add: example_heap_def)
  obtain out calls h' where run: "processOneToken example_config example_env (\<lambda>x. ''1'')
      ''https://rpc.example'' example_heap 0 ''0xToken'' [Wake] = (out, calls, h')"
    by (cases "processOneToken example_config example_env (\<lambda>x. ''1'')
      ''https://rpc.example'' example_heap 0 ''0xToken'' [Wake]") auto
  from processOneToken_keeps_caller_list [OF l run] have "h' ! 0 = example_heap ! 0" by blast
  moreover have "snd (snd (processOneToken example_config example_env (\<lambda>x. ''1'')
      ''https://rpc.example'' example_heap 0 ''0xToken'' [Wake]))
        = snd (working_list example_config example_heap 0 ''0xToken'')"
    by (simp add: processOneToken_def getTokenInfo_example Let_def
        split: prod.splits outcome.splits)
  moreover have "snd (working_list example_config example_heap 0 ''0xToken'')
        = [[''0xA'', ''0xB'', ''0xC'', ''0xB''], [''0xA'', ''0xC'', ''0xB'']]"
    by (simp add: working_list_def spread_def exclude_one_def
        example_config_def example_heap_def)
  ultimately have "h' ! 0 = example_heap ! 0 \<and> h' ! 1 = [''0xA'', ''0xC'', ''0xB'']"
    by (simp add: run)
  then have "h' ! 0 = example_heap ! 0" "h' ! 1 = [''0xA'', ''0xC'', ''0xB'']" by simp_all
  then show ?thesis using run l by (simp add: example_heap_def)
qed


text \<open>
  C5. When \<open>getTokenInfo\<close> returns a token object whose \<open>valid\<close> is not true,
  \<open>processOneToken\<close> returns the result with ticker \<open>null\<close>, price 0, decimals 18 and no
  record, whatever the run, and no \<open>balanceOf\<close> call is issued. That is the case whenever
  the three tries of lines 63-95 do not leave \<open>validToken\<close> true: \<open>getTokenInfo\<close> then
  makes no price request, cannot throw, and returns \<open>valid\<close> false.
\<close>

theorem processOneToken_invalid_token:
  "(snd (ticker_tries env tokenAddress) \<noteq> Some True \<longrightarrow>
      (\<exists>tokenObj. getTokenInfo cfg env tokenAddress = Inr tokenObj \<and>
         valid tokenObj = Some False)) \<and>
   (\<forall>tokenObj. getTokenInfo cfg env tokenAddress = Inr tokenObj \<and>
        valid tokenObj \<noteq> Some True \<longrightarrow>
      fst (processOneToken cfg env toString web3 h contractList tokenAddress es)
        = Fulfilled \<lparr>res_tokenAddress = tokenAddress, res_ticker = None,
                     res_decimals = Num 18, res_price = Num 0, res_records = []\<rparr> \<and>
      fst (snd (processOneToken cfg env toString web3 h contractList tokenAddress es)) = [])"
proof (intro conjI impI allI)
  assume "snd (ticker_tries env tokenAddress) \<noteq> Some True"
  from getTokenInfo_invalid [OF this, of cfg]
  show "\<exists>tokenObj. getTokenInfo cfg env tokenAddress = Inr tokenObj \<and> valid tokenObj = Some False"
    by simp
next
  fix tokenObj
  assume "getTokenInfo cfg env tokenAddress = Inr tokenObj \<and> valid tokenObj \<noteq> Some True"
  then show "fst (processOneToken cfg env toString web3 h contractList tokenAddress es)
        = Fulfilled \<lparr>res_tokenAddress = tokenAddress, res_ticker = None,
                     res_decimals = Num 18, res_price = Num 0, res_records = []\<rparr>"
    by (simp add: processOneToken_def Let_def split: prod.splits)
next
  fix tokenObj
  assume "getTokenInfo cfg env tokenAddress = Inr tokenObj \<and> valid tokenObj \<noteq> Some True"
  then show "fst (snd (processOneToken cfg env toString web3 h contractList tokenAddress es)) = []"
    by (simp add: processOneToken_def Let_def split: prod.splits)
qed

theorem processOneToken_invalid_token_witness:
  "snd (ticker_tries example_env ''0xOther'') = Some False \<and>
   getTokenInfo example_config example_env ''0xOther''
     = Inr \<lparr>address = ''0xOther'', ticker = Some ''unknown'', valid = Some False,
            decimals = Num 18, price = Num 0\<rparr> \<and>
   fst (processOneToken example_config example_env (\<lambda>x. ''1'') ''https://rpc.example''
          example_heap 0 ''0xOther'' [Wake])
     = Fulfilled \<lparr>res_tokenAddress = ''0xOther'', res_ticker = None,
                  res_decimals = Num 18, res_price = Num 0, res_records = []\<rparr> \<and>
   fst (snd (processOneToken example_config example_env (\<lambda>x. ''1'') ''https://rpc.example''
          example_heap 0 ''0xOther'' [Wake])) = [] \<and>
   fst (snd (processOneToken example_config example_env (\<lambda>x. ''1'') ''https://rpc.example''
          example_heap 0 ''0xToken'' [Wake]))
     = [(Contract ''https://rpc-1.example'' ''0xToken'', ''0xA'')]"
proof -
  have inv: "snd (ticker_tries example_env ''0xOther'') = Some False"
    by (simp add: ticker_tries_def example_env_def no_ticker_def)
  note g = getTokenInfo_example_other
  have other: "fst (snd (processOneToken example_config example_env (\<lambda>x. ''1'')
          ''https://rpc.example'' example_heap 0 ''0xToken'' [Wake]))
     = [(Contract ''https://rpc-1.example'' ''0xToken'', ''0xA'')]"
    unfolding processOneToken_def getTokenInfo_example
    by (simp add: working_list_def spread_def exclude_one_def example_config_def
        example_heap_def findBalances_def build_workers_def distributeTasks_start_def
        loop_head_def checkAvailability_def executeTask_def)
  from processOneToken_invalid_token [of example_env "''0xOther''" example_config
      "\<lambda>x. ''1''" "''https://rpc.example''" example_heap 0 "[Wake]",
      THEN conjunct2, rule_format, of "\<lparr>address = ''0xOther'', ticker = Some ''unknown'',
        valid = Some False, decimals = Num 18, price = Num 0\<rparr>"] g
  have "fst (processOneToken example_config example_env (\<lambda>x. ''1'') ''https://rpc.example''
          example_heap 0 ''0xOther'' [Wake])
     = Fulfilled \<lparr>res_tokenAddress = ''0xOther'', res_ticker = None,
                  res_decimals = Num 18, res_price = Num 0, res_records = []\<rparr> \<and>
   fst (snd (processOneToken example_config example_env (\<lambda>x. ''1'') ''https://rpc.example''
          example_heap 0 ''0xOther'' [Wake])) = []"
    by simp
  with inv g other show ?thesis by (intro conjI) simp_all
qed

subsection \<open>Rounding to a double\<close>

lemma round_half_even_of_int [simp]: "round_half_even (of_int k) = k"
  by (simp add: round_half_even_def)

lemma round_half_even_ge_floor: "\<lfloor>x\<rfloor> \<le> round_half_even x"
  by (simp add: round_half_even_def Let_def)

lemma ilog2_of_int: "0 < z \<Longrightarrow> ilog2 (of_int z) = bitlen z - 1"
  by (simp add: ilog2_def)

lemma ilog2_max_of_int:
  assumes "0 < z"
  shows "max (ilog2 (of_int z)) (- 1022) = bitlen z - 1" and "0 \<le> bitlen z - 1"
    and "2 ^ nat (bitlen z - 1) \<le> z" and "z < 2 ^ nat (bitlen z - 1 + 1)"
proof -
  from assms show e0: "0 \<le> bitlen z - 1"
    using bitlen_eq_zero_iff [of z] bitlen_nonneg [of z] by simp
  with assms show "max (ilog2 (of_int z)) (- 1022) = bitlen z - 1"
    by (simp add: ilog2_of_int)
  from assms show "2 ^ nat (bitlen z - 1) \<le> z" "z < 2 ^ nat (bitlen z - 1 + 1)"
    using bitlen_bounds [of z] by simp_all
qed

lemma nearest_double_small_int:
  assumes "0 < z" and "bitlen z \<le> 53"
  shows "nearest_double (of_int z) = Num (of_int z)"
proof -
  define e where "e = bitlen z - 1"
  note il = ilog2_max_of_int [OF assms(1), folded e_def]
  from assms have z0: "(of_int z :: rat) \<noteq> 0" "\<bar>of_int z :: rat\<bar> = of_int z"
    "\<not> (of_int z :: rat) < 0"
    by simp_all
  from assms(2) have le: "e \<le> 52" by (simp add: e_def)
  define k where "k = nat (52 - e)"
  have ulp: "pow2 (e - 52) = 1 / 2 ^ k"
    using le by (cases "e = 52") (simp_all add: pow2_def k_def)
  have q: "(of_int z :: rat) / (1 / 2 ^ k) = of_int (z * 2 ^ k)" by simp
  have "nat (e + 1) \<le> 53" using le il(2) by simp
  then have "(2::int) ^ nat (e + 1) \<le> 2 ^ 53" by (rule power_increasing) simp
  with il(4) have "z < 2 ^ 53" by linarith
  also have "(2::int) ^ 53 < 2 ^ 1024" by simp
  finally have "(of_int z :: rat) < of_int (2 ^ 1024)" by (simp only: of_int_less_iff)
  then have small: "\<not> (2 :: rat) ^ 1024 \<le> of_int z" by simp
  show ?thesis
    unfolding nearest_double_def Let_def il(1) z0(2) ulp q round_half_even_of_int
    using z0 small by simp
qed

lemma nearest_double_of_pos_int:
  assumes "0 < z"
  shows "nearest_double (of_int z) = PosInf \<or>
         (\<exists>k>0. nearest_double (of_int z) = Num (of_int k))"
proof (cases "bitlen z \<le> 53")
  case True
  from nearest_double_small_int [OF assms True] assms show ?thesis by blast
next
  case False
  define e where "e = bitlen z - 1"
  note il = ilog2_max_of_int [OF assms(1), folded e_def]
  from assms have z0: "(of_int z :: rat) \<noteq> 0" "\<bar>of_int z :: rat\<bar> = of_int z"
    "\<not> (of_int z :: rat) < 0"
    by simp_all
  from False have gt: "52 < e" by (simp add: e_def)
  define j where "j = nat (e - 52)"
  have ulp: "pow2 (e - 52) = of_int (2 ^ j)"
    using gt by (simp add: pow2_def j_def)
  define m where "m = round_half_even (of_int z / of_int (2 ^ j))"
  have "j \<le> nat e" using gt by (simp add: j_def)
  then have "(2::int) ^ j \<le> 2 ^ nat e" by (rule power_increasing) simp
  with il(3) have "(2::int) ^ j \<le> z" by linarith
  then have "(of_int (2 ^ j) :: rat) \<le> of_int z" by (simp only: of_int_le_iff)
  then have "1 \<le> (of_int z :: rat) / of_int (2 ^ j)" by (simp add: le_divide_eq)
  then have fl: "1 \<le> \<lfloor>(of_int z :: rat) / of_int (2 ^ j)\<rfloor>" by (simp add: le_floor_iff)
  have m1: "1 \<le> m"
    unfolding m_def by (rule order_trans [OF fl round_half_even_ge_floor])
  then have pos: "0 < m * 2 ^ j" by simp
  have r: "of_int m * (of_int (2 ^ j) :: rat) = of_int (m * 2 ^ j)" by simp
  have "nearest_double (of_int z) =
      (if (2::rat) ^ 1024 \<le> of_int (m * 2 ^ j) then PosInf else Num (of_int (m * 2 ^ j)))"
    unfolding nearest_double_def Let_def il(1) z0(2) ulp m_def [symmetric] r
    using z0 by simp
  with pos show ?thesis by (cases "(2::rat) ^ 1024 \<le> of_int (m * 2 ^ j)") auto
qed

lemma nearest_double_minus:
  "nearest_double (- x) =
     (case nearest_double x of Num r \<Rightarrow> Num (- r) | PosInf \<Rightarrow> NegInf | NegInf \<Rightarrow> PosInf | NaN \<Rightarrow> NaN)"
  by (cases "x = 0"; cases "x < 0") (auto simp: nearest_double_def Let_def)

lemma nearest_double_of_neg_int:
  assumes "z < 0"
  shows "nearest_double (of_int z) = NegInf \<or>
         (\<exists>k<0. nearest_double (of_int z) = Num (of_int k))"
proof -
  from assms have "0 < - z" by simp
  note eq = nearest_double_minus [of "of_int (- z)"]
  from nearest_double_of_pos_int [OF \<open>0 < - z\<close>]
  consider "nearest_double (of_int (- z)) = PosInf"
    | k where "0 < k" "nearest_double (of_int (- z)) = Num (of_int k)" by blast
  then show ?thesis
  proof cases
    case 1
    with eq show ?thesis by simp
  next
    case 2
    with eq have "nearest_double (of_int z) = Num (of_int (- k))" by simp
    with 2(1) show ?thesis by (intro disjI2 exI [of _ "- k"]) simp
  qed
qed

lemma nearest_double_zero [simp]: "nearest_double 0 = Num 0"
  by (simp add: nearest_double_def)

lemma Number_of_BigInt_int_or_inf: "int_or_inf (Number_of_BigInt q)"
proof -
  consider "q < 0" | "q = 0" | "0 < q" by linarith
  then show ?thesis
  proof cases
    case 1
    from nearest_double_of_neg_int [OF this] show ?thesis
      by (auto simp: int_or_inf_def Number_of_BigInt_def)
  next
    case 2
    then have "Number_of_BigInt q = Num (of_int 0)" by (simp add: Number_of_BigInt_def)
    then show ?thesis unfolding int_or_inf_def by blast
  next
    case 3
    from nearest_double_of_pos_int [OF this] show ?thesis
      by (auto simp: int_or_inf_def Number_of_BigInt_def)
  qed
qed

lemma positive_nearest_double_of_int:
  "js_less (Num 0) (nearest_double (of_int z)) \<longleftrightarrow> 0 < z"
proof -
  consider "z < 0" | "z = 0" | "0 < z" by linarith
  then show ?thesis
  proof cases
    case 1
    from nearest_double_of_neg_int [OF this] 1 show ?thesis
      by (auto simp: js_less_def)
  next
    case 2
    then show ?thesis by (simp add: js_less_def)
  next
    case 3
    from nearest_double_of_pos_int [OF this] 3 show ?thesis
      by (auto simp: js_less_def)
  qed
qed

lemma comparator_positive_iff:
  assumes "int_or_inf x" and "int_or_inf y"
  shows "js_less (Num 0) (js_minus y x) \<longleftrightarrow> js_less x y"
proof -
  have num: "js_less (Num 0) (js_minus (Num (of_int b)) (Num (of_int a)))
      \<longleftrightarrow> js_less (Num (of_int a)) (Num (of_int b))" for a b :: int
    using positive_nearest_double_of_int [of "b - a"] by (simp add: js_minus_def js_less_def)
  from assms show ?thesis
    unfolding int_or_inf_def
    by (elim disjE exE) (simp_all add: num, simp_all add: js_minus_def js_less_def)
qed

lemma js_less_trans_neg:
  assumes "int_or_inf x" "int_or_inf y" "int_or_inf z"
    and "\<not> js_less x y" "\<not> js_less y z"
  shows "\<not> js_less x z"
  using assms unfolding int_or_inf_def
  by (elim disjE exE) (simp_all add: js_less_def)

lemma js_less_asym: "js_less x y \<Longrightarrow> \<not> js_less y x"
  by (cases x; cases y) (simp_all add: js_less_def)


lemma pow2_pos: "0 < pow2 e"
  by (simp add: pow2_def)

lemma round_half_even_nonneg: "0 \<le> x \<Longrightarrow> 0 \<le> round_half_even x"
  using round_half_even_ge_floor [of x] by (simp add: order_trans [of 0 "\<lfloor>x\<rfloor>"])

lemma nearest_double_of_pos:
  assumes "0 < x"
  shows "nearest_double x = PosInf \<or> (\<exists>r\<ge>0. nearest_double x = Num r)"
proof -
  define ulp where "ulp = pow2 (max (ilog2 \<bar>x\<bar>) (- 1022) - 52)"
  define r where "r = of_int (round_half_even (\<bar>x\<bar> / ulp)) * ulp"
  have "0 < ulp" unfolding ulp_def by (rule pow2_pos)
  with assms have "0 \<le> \<bar>x\<bar> / ulp" by simp
  then have "0 \<le> round_half_even (\<bar>x\<bar> / ulp)" by (rule round_half_even_nonneg)
  with \<open>0 < ulp\<close> have "0 \<le> r" by (simp add: r_def)
  moreover have "nearest_double x = (if 2 ^ 1024 \<le> r then PosInf else Num r)"
    using assms by (simp add: nearest_double_def Let_def r_def ulp_def)
  ultimately show ?thesis by (cases "2 ^ 1024 \<le> r") auto
qed

lemma pow10_literal_cases:
  "pow10_literal d = NaN \<or> (\<exists>x>0. pow10_literal d = nearest_double x)"
proof (cases d)
  case (Num r)
  define x :: rat where "x = (if 0 \<le> r then 10 ^ nat \<lfloor>r\<rfloor> else 1 / 10 ^ nat (- \<lfloor>r\<rfloor>))"
  have "0 < x" by (simp add: x_def)
  moreover have "pow10_literal d = NaN \<or> pow10_literal d = nearest_double x"
    by (simp add: pow10_literal_def Num x_def)
  ultimately show ?thesis by blast
qed (simp_all add: pow10_literal_def)

lemma divisor_nonneg:
  assumes "divisor d = Inr dv"
  shows "0 \<le> dv"
proof -
  from assms have "pow10_literal d \<noteq> NaN"
    by (auto simp: divisor_def BigInt_of_Number_def)
  with pow10_literal_cases [of d] obtain x where x: "0 < x" "pow10_literal d = nearest_double x"
    by blast
  from nearest_double_of_pos [OF x(1)] assms x(2) show ?thesis
    by (auto simp: divisor_def BigInt_of_Number_def split: if_splits)
qed

lemma small_numeral [simp]:
  "bitlen (numeral n) \<le> 53 \<Longrightarrow> nearest_double (numeral n) = Num (numeral n)"
  using nearest_double_small_int [of "numeral n"] by simp

lemma small_one [simp]: "nearest_double 1 = Num 1"
  using nearest_double_small_int [of 1] by (simp add: bitlen_le_iff_power)

lemma small_neg_numeral [simp]:
  "bitlen (numeral n) \<le> 53 \<Longrightarrow> nearest_double (- numeral n) = Num (- numeral n)"
  using nearest_double_minus [of "numeral n"] by simp

lemma bitlen_small [simp]: "numeral n < (2::int) ^ 53 \<Longrightarrow> bitlen (numeral n) \<le> 53"
  by (simp add: bitlen_le_iff_power)

lemma bitlen_eqI: "0 < n \<Longrightarrow> 2 ^ (n - 1) \<le> x \<Longrightarrow> x < 2 ^ n \<Longrightarrow> bitlen x = int n"
  by (auto simp: bitlen_le_iff_power bitlen_ge_iff_power intro!: antisym)

lemma nearest_double_example_sum: "nearest_double 3000000000000000003 = Num 3000000000000000000"
proof -
  have b: "bitlen 3000000000000000003 = 62"
    using bitlen_eqI [of 62 3000000000000000003] by simp
  have f: "\<lfloor>(3000000000000000003 :: rat) / 512\<rfloor> = 5859375000000000"
    by (rule floor_unique) simp_all
  show ?thesis
    by (simp add: nearest_double_def ilog2_def b pow2_def round_half_even_def Let_def f)
qed

lemma nearest_double_1e18: "nearest_double (10 ^ 18) = Num (10 ^ 18)"
proof -
  have b: "bitlen 1000000000000000000 = 60"
    using bitlen_eqI [of 60 1000000000000000000] by simp
  show ?thesis
    by (simp add: nearest_double_def ilog2_def b pow2_def round_half_even_def Let_def)
qed

lemma nearest_double_1e_6: "nearest_double (1 / 1000000) = Num (4722366482869645 / 2 ^ 72)"
proof -
  have b: "bitlen 999999 = 20"
    using bitlen_eqI [of 20 999999] by simp
  have f: "\<lfloor>(73786976294838206464 :: rat) / 15625\<rfloor> = 4722366482869645"
    by (rule floor_unique) simp_all
  show ?thesis
    by (simp add: nearest_double_def ilog2_def b pow2_def round_half_even_def Let_def f)
qed

lemma divisor_0: "divisor (Num 0) = Inr 1"
  by (simp add: divisor_def pow10_literal_def BigInt_of_Number_def)

lemma divisor_18: "divisor (Num 18) = Inr (10 ^ 18)"
  using nearest_double_1e18 by (simp add: divisor_def pow10_literal_def BigInt_of_Number_def)


subsection \<open>Sorting and aggregation\<close>

lemma set_insert_sorted [simp]: "set (insert_sorted cmp x ys) = insert x (set ys)"
  by (induction ys) auto

lemma mset_insert_sorted [simp]: "mset (insert_sorted cmp x ys) = add_mset x (mset ys)"
  by (induction ys) auto

lemma mset_js_sort [simp]: "mset (js_sort cmp xs) = mset xs"
  by (induction xs) (simp_all add: js_sort_def)

lemma set_js_sort [simp]: "set (js_sort cmp xs) = set xs"
  by (metis mset_js_sort set_mset_mset)

lemma insert_sorted_descending:
  assumes "\<forall>r \<in> set (x # ys). int_or_inf (roundedAmount r)"
    and "sorted_wrt (\<lambda>a b. \<not> js_less (roundedAmount a) (roundedAmount b)) ys"
  shows "sorted_wrt (\<lambda>a b. \<not> js_less (roundedAmount a) (roundedAmount b))
           (insert_sorted compare_records x ys)"
  using assms
proof (induction ys)
  case Nil
  then show ?case by simp
next
  case (Cons y ys)
  from Cons.prems(1) have kx: "int_or_inf (roundedAmount x)" and ky: "int_or_inf (roundedAmount y)"
    and kys: "\<forall>r \<in> set ys. int_or_inf (roundedAmount r)" by simp_all
  have cmp: "js_less (Num 0) (compare_records x y) \<longleftrightarrow> js_less (roundedAmount x) (roundedAmount y)"
    unfolding compare_records_def by (rule comparator_positive_iff [OF kx ky])
  show ?case
  proof (cases "js_less (roundedAmount x) (roundedAmount y)")
    case True
    from Cons.prems have "sorted_wrt (\<lambda>a b. \<not> js_less (roundedAmount a) (roundedAmount b))
        (insert_sorted compare_records x ys)"
      by (intro Cons.IH) simp_all
    moreover have "\<not> js_less (roundedAmount y) (roundedAmount x)"
      using True by (rule js_less_asym)
    ultimately show ?thesis using True Cons.prems(2) by (simp add: cmp)
  next
    case False
    have "\<not> js_less (roundedAmount x) (roundedAmount z)" if "z \<in> set ys" for z
    proof -
      from that Cons.prems(2) have "\<not> js_less (roundedAmount y) (roundedAmount z)" by simp
      moreover from that kys have "int_or_inf (roundedAmount z)" by simp
      ultimately show ?thesis using js_less_trans_neg [OF kx ky _ False] by blast
    qed
    with False Cons.prems(2) show ?thesis by (simp add: cmp)
  qed
qed

lemma js_sort_descending:
  assumes "\<forall>r \<in> set rs. int_or_inf (roundedAmount r)"
  shows "sorted_wrt (\<lambda>a b. \<not> js_less (roundedAmount a) (roundedAmount b))
           (js_sort compare_records rs)"
  using assms
proof (induction rs)
  case Nil
  then show ?case by (simp add: js_sort_def)
next
  case (Cons r rs)
  then have "sorted_wrt (\<lambda>a b. \<not> js_less (roundedAmount a) (roundedAmount b))
      (js_sort compare_records rs)" by simp
  moreover have "\<forall>q \<in> set (r # js_sort compare_records rs). int_or_inf (roundedAmount q)"
    using Cons.prems by simp
  ultimately have "sorted_wrt (\<lambda>a b. \<not> js_less (roundedAmount a) (roundedAmount b))
      (insert_sorted compare_records r (js_sort compare_records rs))"
    by (intro insert_sorted_descending)
  then show ?case by (simp add: js_sort_def)
qed

lemma make_record_fields:
  assumes "make_record toString tokenObj cl i b = Inr r"
  shows "amount r = b \<and> contract r = nth_opt cl i \<and>
         (\<exists>dv q. divisor (decimals tokenObj) = Inr dv \<and> BigInt_div b dv = Inr q \<and>
            roundedAmount r = Number_of_BigInt q \<and>
            dollarValue r = numberWithCommas toString (js_times (Number_of_BigInt q) (price tokenObj)))"
  using assms by (auto simp: make_record_def split: sum.splits)

lemma format_balances_amounts:
  "format_balances toString tokenObj cl i bs = Inr rs \<Longrightarrow>
   map amount rs = filter (\<lambda>b. 0 < b) bs"
proof (induction bs arbitrary: i rs)
  case Nil
  then show ?case by simp
next
  case (Cons b bs)
  show ?case
  proof (cases "0 < b")
    case True
    with Cons.prems obtain r rs' where r: "make_record toString tokenObj cl i b = Inr r"
      and rs': "format_balances toString tokenObj cl (Suc i) bs = Inr rs'" and rs: "rs = r # rs'"
      by (auto split: sum.splits)
    from make_record_fields [OF r] Cons.IH [OF rs'] True rs show ?thesis by simp
  next
    case False
    with Cons.prems Cons.IH [of "Suc i" rs] show ?thesis by simp
  qed
qed

lemma format_balances_members:
  "format_balances toString tokenObj cl i bs = Inr rs \<Longrightarrow>
   set rs = {r. \<exists>j < length bs. 0 < bs ! j \<and> make_record toString tokenObj cl (i + j) (bs ! j) = Inr r}"
proof (induction bs arbitrary: i rs)
  case Nil
  then show ?case by simp
next
  case (Cons b bs)
  have shift: "{r. \<exists>j < length (b # bs). 0 < (b # bs) ! j \<and>
                 make_record toString tokenObj cl (i + j) ((b # bs) ! j) = Inr r}
      = (if 0 < b then {r. make_record toString tokenObj cl i b = Inr r} else {}) \<union>
        {r. \<exists>j < length bs. 0 < bs ! j \<and> make_record toString tokenObj cl (Suc i + j) (bs ! j) = Inr r}"
    (is "?L = ?R")
  proof (intro set_eqI iffI)
    fix r assume "r \<in> ?L"
    then obtain j where j: "j < length (b # bs)" "0 < (b # bs) ! j"
      "make_record toString tokenObj cl (i + j) ((b # bs) ! j) = Inr r" by blast
    show "r \<in> ?R"
    proof (cases j)
      case 0
      with j show ?thesis by simp
    next
      case (Suc j')
      with j have "j' < length bs \<and> 0 < bs ! j' \<and>
        make_record toString tokenObj cl (Suc i + j') (bs ! j') = Inr r" by simp
      then show ?thesis by blast
    qed
  next
    fix r assume "r \<in> ?R"
    then consider "0 < b" "make_record toString tokenObj cl i b = Inr r"
      | j where "j < length bs" "0 < bs ! j"
          "make_record toString tokenObj cl (Suc i + j) (bs ! j) = Inr r"
      by (auto split: if_splits)
    then show "r \<in> ?L"
    proof cases
      case 1
      then have "0 < length (b # bs) \<and> 0 < (b # bs) ! 0 \<and>
        make_record toString tokenObj cl (i + 0) ((b # bs) ! 0) = Inr r" by simp
      then show ?thesis by blast
    next
      case 2
      then have "Suc j < length (b # bs) \<and> 0 < (b # bs) ! Suc j \<and>
        make_record toString tokenObj cl (i + Suc j) ((b # bs) ! Suc j) = Inr r" by simp
      then show ?thesis by blast
    qed
  qed
  show ?case
  proof (cases "0 < b")
    case True
    with Cons.prems obtain r rs' where r: "make_record toString tokenObj cl i b = Inr r"
      and rs': "format_balances toString tokenObj cl (Suc i) bs = Inr rs'" and rs: "rs = r # rs'"
      by (auto split: sum.splits)
    from Cons.IH [OF rs'] r rs True show ?thesis unfolding shift by auto
  next
    case False
    with Cons.prems Cons.IH [of "Suc i" rs] show ?thesis unfolding shift by simp
  qed
qed

lemma format_balances_keys:
  assumes "format_balances toString tokenObj cl i bs = Inr rs" and "r \<in> set rs"
  shows "int_or_inf (roundedAmount r)"
proof -
  from assms obtain j where "make_record toString tokenObj cl (i + j) (bs ! j) = Inr r"
    by (auto simp: format_balances_members)
  from make_record_fields [OF this] show ?thesis
    by (auto simp: Number_of_BigInt_int_or_inf)
qed

text \<open>
  C6. The aggregation of \<open>findBalances\<close> makes one record for each strictly positive
  balance and none for the others, and returns the records so that no record is
  followed by one with a larger \<open>roundedAmount\<close> (no \<open>roundedAmount\<close> is \<open>NaN\<close>). For the
  balances 5, 0, 100, 3 at 0 decimals and price 1 the \<open>roundedAmount\<close>s are 100, 5, 3.
\<close>

theorem findBalances_records_sorted:
  "(aggregate toString tokenObj contractList balances = Inr records \<longrightarrow>
      mset (map amount records) = mset (filter (\<lambda>b. 0 < b) balances) \<and>
      (\<forall>r \<in> set records. 0 < amount r \<and> roundedAmount r \<noteq> NaN) \<and>
      sorted_wrt (\<lambda>a b. \<not> js_less (roundedAmount a) (roundedAmount b)) records) \<and>
   (\<exists>rs. aggregate toString
            \<lparr>address = tokenAddress, ticker = tick, valid = Some True, decimals = Num 0, price = Num 1\<rparr>
            contractList [5, 0, 100, 3] = Inr rs \<and>
         map roundedAmount rs = [Num 100, Num 5, Num 3] \<and> map amount rs = [100, 5, 3])"
proof (intro conjI impI)
  assume a: "aggregate toString tokenObj contractList balances = Inr records"
  then obtain rs where rs: "format_balances toString tokenObj contractList 0 balances = Inr rs"
    and sorted: "records = js_sort compare_records rs"
    by (auto simp: aggregate_def split: sum.splits)
  have "mset (map amount records) = mset (map amount rs)"
    by (simp add: sorted)
  then show "mset (map amount records) = mset (filter (\<lambda>b. 0 < b) balances)"
    by (simp add: format_balances_amounts [OF rs])
  have keys: "\<forall>r \<in> set rs. int_or_inf (roundedAmount r)"
    using format_balances_keys [OF rs] by blast
  have "0 < amount r \<and> roundedAmount r \<noteq> NaN" if "r \<in> set records" for r
  proof -
    from that have r: "r \<in> set rs" by (simp add: sorted)
    then have "amount r \<in> set (map amount rs)" by simp
    then have "0 < amount r" by (simp add: format_balances_amounts [OF rs])
    moreover from keys r have "roundedAmount r \<noteq> NaN" by (auto simp: int_or_inf_def)
    ultimately show ?thesis by simp
  qed
  then show "\<forall>r \<in> set records. 0 < amount r \<and> roundedAmount r \<noteq> NaN" by blast
  show "sorted_wrt (\<lambda>a b. \<not> js_less (roundedAmount a) (roundedAmount b)) records"
    unfolding sorted by (rule js_sort_descending [OF keys])
next
  define rs where "rs = projr (aggregate toString
      \<lparr>address = tokenAddress, ticker = tick, valid = Some True, decimals = Num 0, price = Num 1\<rparr>
      contractList [5, 0, 100, 3])"
  have A: "aggregate toString
      \<lparr>address = tokenAddress, ticker = tick, valid = Some True, decimals = Num 0, price = Num 1\<rparr>
      contractList [5, 0, 100, 3] = Inr rs"
    unfolding rs_def by (simp add: aggregate_def make_record_def divisor_0 BigInt_div_def)
  have B: "map roundedAmount rs = [Num 100, Num 5, Num 3]" and C: "map amount rs = [100, 5, 3]"
    unfolding rs_def
    by (simp_all add: aggregate_def make_record_def divisor_0 BigInt_div_def
      Number_of_BigInt_def js_sort_def compare_records_def js_minus_def js_less_def)
  from A B C show "\<exists>rs. aggregate toString
            \<lparr>address = tokenAddress, ticker = tick, valid = Some True, decimals = Num 0, price = Num 1\<rparr>
            contractList [5, 0, 100, 3] = Inr rs \<and>
         map roundedAmount rs = [Num 100, Num 5, Num 3] \<and> map amount rs = [100, 5, 3]"
    by - (rule exI [of _ rs], simp)
qed

theorem findBalances_records_sorted_witness:
  "aggregate (\<lambda>x. ''1'') example_token [''0xA'', ''0xB'', ''0xC'']
       [3000000000000000000, 0, 7000000000000000000]
     = Inr [\<lparr>amount = 7000000000000000000, roundedAmount = Num 7, dollarValue = ''1'',
              contract = Some ''0xC''\<rparr>,
            \<lparr>amount = 3000000000000000000, roundedAmount = Num 3, dollarValue = ''1'',
              contract = Some ''0xA''\<rparr>] \<and>
   mset [7000000000000000000, 3000000000000000000 :: int]
     = mset (filter (\<lambda>b. 0 < b) [3000000000000000000, 0, 7000000000000000000]) \<and>
   sorted_wrt (\<lambda>a b. \<not> js_less (roundedAmount a) (roundedAmount b))
      [\<lparr>amount = 7000000000000000000, roundedAmount = Num 7, dollarValue = ''1'',
              contract = Some ''0xC''\<rparr>,
       \<lparr>amount = 3000000000000000000, roundedAmount = Num 3, dollarValue = ''1'',
              contract = Some ''0xA''\<rparr>]"
proof -
  have run: "aggregate (\<lambda>x. ''1'') example_token [''0xA'', ''0xB'', ''0xC'']
       [3000000000000000000, 0, 7000000000000000000]
     = Inr [\<lparr>amount = 7000000000000000000, roundedAmount = Num 7, dollarValue = ''1'',
              contract = Some ''0xC''\<rparr>,
            \<lparr>amount = 3000000000000000000, roundedAmount = Num 3, dollarValue = ''1'',
              contract = Some ''0xA''\<rparr>]"
    by (simp add: aggregate_def make_record_def divisor_18 example_token_def BigInt_div_def
        Number_of_BigInt_def js_sort_def compare_records_def js_minus_def js_less_def
        js_times_def nth_opt_def numberWithCommas_def nearest_double_1e_6 is_digit_def)
  from findBalances_records_sorted [of "\<lambda>x. ''1''" example_token "[''0xA'', ''0xB'', ''0xC'']"
      "[3000000000000000000, 0, 7000000000000000000]"
      "[\<lparr>amount = 7000000000000000000, roundedAmount = Num 7, dollarValue = ''1'',
              contract = Some ''0xC''\<rparr>,
        \<lparr>amount = 3000000000000000000, roundedAmount = Num 3, dollarValue = ''1'',
              contract = Some ''0xA''\<rparr>]"] run
  show ?thesis by simp
qed


lemma zero_displays_as_0_00: "numberWithCommas toString (Num 0) = ''0.00''"
  by (simp add: numberWithCommas_def nearest_double_1e_6 js_less_def)

lemma positive_amount_not_tiny:
  assumes "0 < q"
  shows "\<not> js_less (Number_of_BigInt q) (nearest_double (1 / 1000000))"
proof -
  have "\<not> (of_int k :: rat) < 4722366482869645 / 2 ^ 72" if "0 < k" for k :: int
  proof -
    from that have "(1::rat) \<le> of_int k" by simp
    moreover have "(4722366482869645 / 2 ^ 72 :: rat) < 1" by simp
    ultimately show ?thesis by linarith
  qed
  with nearest_double_of_pos_int [OF assms] show ?thesis
    by (auto simp: Number_of_BigInt_def nearest_double_1e_6 js_less_def)
qed

lemma make_record_quotient:
  assumes "make_record toString tokenObj cl i b = Inr r" and "0 < b"
  shows "\<exists>dv. divisor (decimals tokenObj) = Inr dv \<and> 0 < dv \<and>
           roundedAmount r = Number_of_BigInt (b div dv) \<and>
           dollarValue r = numberWithCommas toString
              (js_times (Number_of_BigInt (b div dv)) (price tokenObj))"
proof -
  from make_record_fields [OF assms(1)] obtain dv q where
    dv: "divisor (decimals tokenObj) = Inr dv" and q: "BigInt_div b dv = Inr q"
    and r: "roundedAmount r = Number_of_BigInt q"
      "dollarValue r = numberWithCommas toString (js_times (Number_of_BigInt q) (price tokenObj))"
    by blast
  from q have "dv \<noteq> 0" by (auto simp: BigInt_div_def split: if_splits)
  with divisor_nonneg [OF dv] have pos: "0 < dv" by simp
  with q assms(2) have "q = b div dv" by (auto simp: BigInt_div_def split: if_splits)
  with dv pos r show ?thesis by blast
qed

lemma js_times_zero:
  "js_times (Num 0) y = (case y of Num p \<Rightarrow> Num 0 | _ \<Rightarrow> NaN)"
  by (cases y) (simp_all add: js_times_def)

lemma tiny_record_dollarValue:
  assumes "make_record toString tokenObj cl i b = Inr r" and "0 < b"
    and "js_less (roundedAmount r) (nearest_double (1 / 1000000))"
  shows "roundedAmount r = Num 0 \<and>
         dollarValue r = (case price tokenObj of
                            Num p \<Rightarrow> ''0.00''
                          | _ \<Rightarrow> numberWithCommas toString NaN)"
proof -
  from make_record_quotient [OF assms(1,2)] obtain dv where dv: "0 < dv"
    and r: "roundedAmount r = Number_of_BigInt (b div dv)"
      "dollarValue r = numberWithCommas toString
              (js_times (Number_of_BigInt (b div dv)) (price tokenObj))"
    by blast
  from dv assms(2) have "0 \<le> b div dv" by (simp add: pos_imp_zdiv_nonneg_iff)
  moreover from assms(3) r(1) positive_amount_not_tiny [of "b div dv"]
  have "\<not> 0 < b div dv" by auto
  ultimately have "b div dv = 0" by simp
  with r show ?thesis
    by (cases "price tokenObj")
      (simp_all add: Number_of_BigInt_def js_times_zero zero_displays_as_0_00)
qed

text \<open>
  C8, as stated, fails: a record whose \<open>roundedAmount\<close> is below \<open>0.000001\<close> is listed,
  but its dollar value is not always \<open>0.00\<close>. When the price service answers with a price
  that parses to \<open>Infinity\<close>, \<open>getTokenInfo\<close> returns that price; half a token at 18
  decimals has \<open>roundedAmount\<close> 0, the product \<open>0 * Infinity\<close> of line 258 is \<open>NaN\<close>, the
  test \<open>x < 0.000001\<close> of line 42 is false for it, and the dollar value is the text of
  \<open>NaN\<close>.
\<close>

theorem negligible_amount_dollar_value_not_0_00:
  "getTokenInfo example_config example_env_infinite_price ''0xToken''
     = Inr example_token_infinite_price \<and>
   aggregate example_toString example_token_infinite_price [''0xA''] [500000000000000000]
     = Inr [\<lparr>amount = 500000000000000000, roundedAmount = Num 0, dollarValue = ''NaN'',
              contract = Some ''0xA''\<rparr>] \<and>
   js_less (Num 0) (nearest_double (1 / 1000000)) \<and>
   ''NaN'' \<noteq> ''0.00''"
proof -
  have g: "getTokenInfo example_config example_env_infinite_price ''0xToken''
     = Inr example_token_infinite_price"
    by (simp add: getTokenInfo_def ticker_tries_def price_requests_def
        example_env_infinite_price_def example_env_def no_ticker_def
        example_token_infinite_price_def)
  have a: "aggregate example_toString example_token_infinite_price [''0xA'']
       [500000000000000000]
     = Inr [\<lparr>amount = 500000000000000000, roundedAmount = Num 0, dollarValue = ''NaN'',
              contract = Some ''0xA''\<rparr>]"
    by (simp add: aggregate_def make_record_def divisor_18 example_token_infinite_price_def
        BigInt_div_def Number_of_BigInt_def js_sort_def js_less_def js_times_def nth_opt_def
        numberWithCommas_def is_digit_def example_toString_def)
  have l: "js_less (Num 0) (nearest_double (1 / 1000000))"
    by (simp add: nearest_double_1e_6 js_less_def)
  from g a l show ?thesis by simp
qed

text \<open>
  C8, amended. Every strictly positive balance has its record in the aggregated list. A
  record whose \<open>roundedAmount\<close> is below \<open>0.000001\<close> has \<open>roundedAmount\<close> 0; its dollar
  value is \<open>0.00\<close> when the price of the token is a finite number, and
  \<open>numberWithCommas(NaN)\<close> when the price is an infinity or \<open>NaN\<close>. That is the case of
  every strictly positive balance smaller than the divisor.
\<close>

theorem negligible_amount_still_listed:
  assumes "aggregate toString tokenObj contractList balances = Inr records"
  shows "(\<forall>i < length balances. 0 < balances ! i \<longrightarrow>
            (\<exists>r \<in> set records. amount r = balances ! i \<and> contract r = nth_opt contractList i)) \<and>
         (\<forall>r \<in> set records. js_less (roundedAmount r) (nearest_double (1 / 1000000)) \<longrightarrow>
            roundedAmount r = Num 0 \<and>
            dollarValue r = (case price tokenObj of
                               Num p \<Rightarrow> ''0.00''
                             | _ \<Rightarrow> numberWithCommas toString NaN)) \<and>
         (\<forall>i < length balances. \<forall>dv. divisor (decimals tokenObj) = Inr dv \<and>
              0 < balances ! i \<and> balances ! i < dv \<longrightarrow>
            (\<exists>r \<in> set records. amount r = balances ! i \<and> contract r = nth_opt contractList i \<and>
               roundedAmount r = Num 0 \<and>
               dollarValue r = (case price tokenObj of
                                  Num p \<Rightarrow> ''0.00''
                                | _ \<Rightarrow> numberWithCommas toString NaN)))"
proof -
  from assms(1) obtain rs where rs: "format_balances toString tokenObj contractList 0 balances = Inr rs"
    and sorted: "records = js_sort compare_records rs"
    by (auto simp: aggregate_def split: sum.splits)
  have mem: "set records = {r. \<exists>j < length balances. 0 < balances ! j \<and>
      make_record toString tokenObj contractList j (balances ! j) = Inr r}"
    using format_balances_members [OF rs] by (simp add: sorted)
  have defined: "\<exists>r. make_record toString tokenObj contractList i (balances ! i) = Inr r"
    if "i < length balances" "0 < balances ! i" for i
  proof -
    from that have "balances ! i \<in> set (filter (\<lambda>b. 0 < b) balances)" by simp
    then have "balances ! i \<in> set (map amount rs)" by (simp add: format_balances_amounts [OF rs])
    then obtain r0 where "r0 \<in> set rs" by auto
    with format_balances_members [OF rs] obtain j where
      "make_record toString tokenObj contractList j (balances ! j) = Inr r0" by auto
    then obtain dv where dv: "divisor (decimals tokenObj) = Inr dv" "dv \<noteq> 0"
      by (auto simp: make_record_def BigInt_div_def split: sum.splits if_splits)
    then show ?thesis by (simp add: make_record_def BigInt_div_def)
  qed
  have 1: "\<exists>r \<in> set records. amount r = balances ! i \<and> contract r = nth_opt contractList i"
    if "i < length balances" "0 < balances ! i" for i
  proof -
    from defined [OF that] obtain r where
      r: "make_record toString tokenObj contractList i (balances ! i) = Inr r" by blast
    with that have "r \<in> set records" unfolding mem by blast
    with make_record_fields [OF r] show ?thesis by blast
  qed
  have 2: "roundedAmount r = Num 0 \<and>
           dollarValue r = (case price tokenObj of
                              Num p \<Rightarrow> ''0.00''
                            | _ \<Rightarrow> numberWithCommas toString NaN)"
    if "r \<in> set records" "js_less (roundedAmount r) (nearest_double (1 / 1000000))" for r
  proof -
    from that(1) obtain j where "0 < balances ! j"
      "make_record toString tokenObj contractList j (balances ! j) = Inr r"
      unfolding mem by blast
    from tiny_record_dollarValue [OF this(2,1) that(2)] show ?thesis .
  qed
  have 3: "\<exists>r \<in> set records. amount r = balances ! i \<and> contract r = nth_opt contractList i \<and>
               roundedAmount r = Num 0 \<and>
               dollarValue r = (case price tokenObj of
                                  Num p \<Rightarrow> ''0.00''
                                | _ \<Rightarrow> numberWithCommas toString NaN)"
    if "i < length balances" "divisor (decimals tokenObj) = Inr dv"
      "0 < balances ! i" "balances ! i < dv" for i dv
  proof -
    from defined [OF that(1,3)] obtain r where
      r: "make_record toString tokenObj contractList i (balances ! i) = Inr r" by blast
    with that have in_set: "r \<in> set records" unfolding mem by blast
    from make_record_quotient [OF r that(3)] that(2) have
      "roundedAmount r = Number_of_BigInt (balances ! i div dv)" by auto
    with that(3,4) have "roundedAmount r = Num 0"
      by (simp add: Number_of_BigInt_def div_pos_pos_trivial)
    then have "js_less (roundedAmount r) (nearest_double (1 / 1000000))"
      by (simp add: nearest_double_1e_6 js_less_def)
    from 2 [OF in_set this] make_record_fields [OF r] in_set show ?thesis by blast
  qed
  from 1 2 3 show ?thesis by blast
qed

theorem negligible_amount_still_listed_witness:
  "aggregate (\<lambda>x. ''1'') example_token [''0xA'', ''0xB'']
       [500000000000000000, 3000000000000000000]
     = Inr [\<lparr>amount = 3000000000000000000, roundedAmount = Num 3, dollarValue = ''1'',
              contract = Some ''0xB''\<rparr>,
            \<lparr>amount = 500000000000000000, roundedAmount = Num 0, dollarValue = ''0.00'',
              contract = Some ''0xA''\<rparr>] \<and>
   price example_token = Num 2 \<and>
   divisor (decimals example_token) = Inr (10 ^ 18) \<and>
   (\<exists>r \<in> set [\<lparr>amount = 3000000000000000000, roundedAmount = Num 3, dollarValue = ''1'',
              contract = Some ''0xB''\<rparr>,
            \<lparr>amount = 500000000000000000, roundedAmount = Num 0, dollarValue = ''0.00'',
              contract = Some ''0xA''\<rparr>].
      amount r = 500000000000000000 \<and> contract r = Some ''0xA'' \<and>
      roundedAmount r = Num 0 \<and> dollarValue r = ''0.00'')"
proof -
  have run: "aggregate (\<lambda>x. ''1'') example_token [''0xA'', ''0xB'']
       [500000000000000000, 3000000000000000000]
     = Inr [\<lparr>amount = 3000000000000000000, roundedAmount = Num 3, dollarValue = ''1'',
              contract = Some ''0xB''\<rparr>,
            \<lparr>amount = 500000000000000000, roundedAmount = Num 0, dollarValue = ''0.00'',
              contract = Some ''0xA''\<rparr>]"
    by (simp add: aggregate_def make_record_def divisor_18 example_token_def BigInt_div_def
        Number_of_BigInt_def js_sort_def compare_records_def js_minus_def js_less_def
        js_times_def nth_opt_def numberWithCommas_def nearest_double_1e_6 is_digit_def)
  have p: "price example_token = Num 2" by (simp add: example_token_def)
  have d: "divisor (decimals example_token) = Inr (10 ^ 18)"
    by (simp add: example_token_def divisor_18)
  note T = negligible_amount_still_listed [OF run, THEN conjunct2, THEN conjunct2,
      rule_format, of 0 "10 ^ 18"]
  from T d p
  have "\<exists>r \<in> set [\<lparr>amount = 3000000000000000000, roundedAmount = Num 3, dollarValue = ''1'',
              contract = Some ''0xB''\<rparr>,
            \<lparr>amount = 500000000000000000, roundedAmount = Num 0, dollarValue = ''0.00'',
              contract = Some ''0xA''\<rparr>].
      amount r = 500000000000000000 \<and> contract r = Some ''0xA'' \<and>
      roundedAmount r = Num 0 \<and> dollarValue r = ''0.00''"
    by (simp add: nth_opt_def)
  with run p d show ?thesis by (intro conjI)
qed

subsection \<open>A defined divisor\<close>



subsection \<open>The header of the report\<close>

lemma sum_and_lines_foldl:
  "foldl (\<lambda>(sum_amount, localStr) r.
              (sum_amount + amount r, localStr @ record_line toString tick r)) (s, l) rs
     = (s + sum_list (map amount rs), l @ concat (map (record_line toString tick) rs))"
  by (induction rs arbitrary: s l) simp_all

lemma sum_and_lines_eq:
  "sum_and_lines toString tick rs
     = (sum_list (map amount rs), concat (map (record_line toString tick) rs))"
  by (simp add: sum_and_lines_def sum_and_lines_foldl)

lemma header_total_example:
  "header_total 3000000000000000003 (Num 18) = Num 3"
  using nearest_double_example_sum nearest_double_1e18 by (simp add: header_total_def Number_of_BigInt_def pow10_literal_def js_divide_def)

lemma nearest_double_12e17: "nearest_double 1200000000000000000 = Num 1200000000000000000"
proof -
  have b: "bitlen 1200000000000000000 = 61"
    using bitlen_eqI [of 61 1200000000000000000] by simp
  show ?thesis
    by (simp add: nearest_double_def ilog2_def b pow2_def round_half_even_def Let_def)
qed

lemma nearest_double_6_5: "nearest_double (6 / 5) = Num (5404319552844595 / 2 ^ 52)"
proof -
  have f: "\<lfloor>(6 :: rat) / 5\<rfloor> = 1" "\<lfloor>(27021597764222976 :: rat) / 5\<rfloor> = 5404319552844595"
    by (rule floor_unique; simp)+
  have b: "bitlen 1 = 1" using bitlen_eqI [of 1 1] by simp
  show ?thesis
    by (simp add: nearest_double_def ilog2_def b pow2_def round_half_even_def Let_def f)
qed

lemma header_total_from_raw_sum:
  "header_total (sum_list [600000000000000000, 600000000000000000]) (Num 18)
     = Num (5404319552844595 / 2 ^ 52)"
  using nearest_double_12e17 nearest_double_1e18 nearest_double_6_5
  by (simp add: header_total_def Number_of_BigInt_def pow10_literal_def js_divide_def)

lemma nearest_double_scaled_int:
  assumes m: "0 < m" "bitlen m \<le> 53" and small: "m * 2 ^ j < 2 ^ 1024"
  shows "nearest_double (of_int (m * 2 ^ j)) = Num (of_int (m * 2 ^ j))"
proof -
  define z where "z = m * 2 ^ j"
  from m(1) have z: "0 < z" by (simp add: z_def)
  have bl: "bitlen z = bitlen m + int j" unfolding z_def using m(1) by simp
  define e where "e = bitlen z - 1"
  note il = ilog2_max_of_int [OF z, folded e_def]
  show ?thesis
  proof (cases "bitlen z \<le> 53")
    case True
    from nearest_double_small_int [OF z True] show ?thesis by (simp add: z_def)
  next
    case False
    then have gt: "52 < e" by (simp add: e_def)
    define i where "i = nat (e - 52)"
    have ij: "i \<le> j" using m(2) bl gt by (simp add: i_def e_def)
    have ulp: "pow2 (e - 52) = 2 ^ i"
      using gt by (simp add: pow2_def i_def)
    have "z = (m * 2 ^ (j - i)) * 2 ^ i"
      using ij by (simp add: z_def flip: power_add)
    then have "(of_int z :: rat) = of_int (m * 2 ^ (j - i)) * 2 ^ i" by simp
    then have q: "(of_int z :: rat) / 2 ^ i = of_int (m * 2 ^ (j - i))" by simp
    have unscale: "(of_int (m * 2 ^ (j - i)) :: rat) * 2 ^ i = of_int z"
      using \<open>(of_int z :: rat) = of_int (m * 2 ^ (j - i)) * 2 ^ i\<close> by simp
    from z have z0: "(of_int z :: rat) \<noteq> 0" "\<bar>of_int z :: rat\<bar> = of_int z"
      "\<not> (of_int z :: rat) < 0"
      by simp_all
    from small have "(of_int z :: rat) < of_int (2 ^ 1024)"
      unfolding z_def by (simp only: of_int_less_iff)
    then have sm: "\<not> (2 :: rat) ^ 1024 \<le> of_int z" by simp
    have "nearest_double (of_int z) = Num (of_int z)"
      unfolding nearest_double_def Let_def il(1) z0(2) ulp q round_half_even_of_int unscale
      using z0 sm by simp
    then show ?thesis by (simp add: z_def)
  qed
qed

lemma power_of_ten_exact:
  assumes "d \<le> 22"
  shows "nearest_double (10 ^ d) = Num (10 ^ d)"
proof -
  have "(5::int) ^ d \<le> 5 ^ 22" using assms by (rule power_increasing) simp
  also have "(5::int) ^ 22 < 2 ^ 53" by simp
  finally have b: "bitlen (5 ^ d) \<le> 53" by (simp add: bitlen_le_iff_power)
  have "(10::int) ^ d \<le> 10 ^ 22" using assms by (rule power_increasing) simp
  also have "(10::int) ^ 22 < 2 ^ 1024" by simp
  finally have "(5::int) ^ d * 2 ^ d < 2 ^ 1024" by (simp flip: power_mult_distrib)
  from nearest_double_scaled_int [OF _ b this]
  have "nearest_double (of_int (5 ^ d * 2 ^ d)) = Num (of_int (5 ^ d * 2 ^ d))" by simp
  moreover have "(5::int) ^ d * 2 ^ d = 10 ^ d" by (simp flip: power_mult_distrib)
  ultimately show ?thesis by simp
qed

lemma pow10_literal_exact:
  assumes "d \<le> 22"
  shows "pow10_literal (Num (of_nat d)) = Num (10 ^ d)"
proof -
  have "(of_nat d :: rat) < 10 ^ 21"
  proof -
    from assms have "(of_nat d :: rat) \<le> of_nat 22" by (simp only: of_nat_le_iff)
    then show ?thesis by simp
  qed
  then show ?thesis
    by (simp add: pow10_literal_def power_of_ten_exact [OF assms])
qed

lemma header_total_rounds_once:
  assumes "0 \<le> total_raw" "total_raw < 2 ^ 53" "d \<le> 22"
  shows "header_total total_raw (Num (of_nat d)) = nearest_double (of_int total_raw / 10 ^ d)"
proof (cases "total_raw = 0")
  case True
  with assms(3) show ?thesis
    by (simp add: header_total_def Number_of_BigInt_def pow10_literal_exact js_divide_def)
next
  case False
  with assms(1) have pos: "0 < total_raw" by simp
  from assms(2) have "bitlen total_raw \<le> 53" by (simp add: bitlen_le_iff_power)
  with pos assms show ?thesis
    by (simp add: header_total_def Number_of_BigInt_def nearest_double_small_int
        pow10_literal_exact js_divide_def)
qed

text \<open>
  C4, as stated, fails: for the raw balances 1000000000000000001 and
  2000000000000000002 at 18 decimals the header total is not the exact quotient
  3.000000000000000003 of the sum by \<open>10 ^ 18\<close>.
\<close>

theorem header_total_not_exact:
  "header_total (sum_list [1000000000000000001, 2000000000000000002]) (Num 18)
     \<noteq> Num (of_int (sum_list [1000000000000000001, 2000000000000000002]) / 10 ^ 18)"
  using header_total_example by simp

text \<open>
  C4, amended. \<open>formatTokenResult\<close> adds the raw amounts of the records exactly, as
  \<open>BigInt\<close>, and converts the sum once: the header total is the double nearest to the
  sum, divided in double arithmetic by the double \<open>10 ^ decimals\<close>. The total in dollars
  and the header line are computed from it. In the example above it is exactly 3. It is
  not the sum of the \<open>roundedAmount\<close>s: for two raw balances of 600000000000000000 at 18
  decimals, which both have \<open>roundedAmount\<close> 0, it is the double nearest to 1.2. For a
  sum below \<open>2 ^ 53\<close> (that of no record included) and at most 22 decimals both
  conversions are exact, and the header total is the exact quotient rounded once.
\<close>

theorem formatTokenResult_header_total:
  "(\<not> no_ticker (res_ticker res) \<and> res_price res \<noteq> Num (- 1) \<longrightarrow>
      asDollar (formatTokenResult toString res)
        = js_times (header_total (sum_list (map amount (res_records res))) (res_decimals res))
            (res_price res) \<and>
      resStr (formatTokenResult toString res)
        = the (res_ticker res) @ '' ['' @ res_tokenAddress res @ '']: '' @
          numberWithCommas toString
            (header_total (sum_list (map amount (res_records res))) (res_decimals res)) @
          '' tokens lost / $'' @
          numberWithCommas toString (asDollar (formatTokenResult toString res)) @
          [CHR 0x0A] @ replicate 47 (CHR ''-'') @ [CHR 0x0A] @
          concat (map (record_line toString (the (res_ticker res))) (res_records res))) \<and>
   header_total raw d = js_divide (nearest_double (of_int raw)) (pow10_literal d) \<and>
   header_total (sum_list [1000000000000000001, 2000000000000000002]) (Num 18) = Num 3 \<and>
   header_total (sum_list [600000000000000000, 600000000000000000]) (Num 18)
     = Num (5404319552844595 / 2 ^ 52) \<and>
   (0 \<le> raw' \<and> raw' < 2 ^ 53 \<and> n \<le> 22 \<longrightarrow>
      header_total raw' (Num (of_nat n)) = nearest_double (of_int raw' / 10 ^ n))"
proof -
  have A: "\<not> no_ticker (res_ticker res) \<and> res_price res \<noteq> Num (- 1) \<longrightarrow>
      asDollar (formatTokenResult toString res)
        = js_times (header_total (sum_list (map amount (res_records res))) (res_decimals res))
            (res_price res) \<and>
      resStr (formatTokenResult toString res)
        = the (res_ticker res) @ '' ['' @ res_tokenAddress res @ '']: '' @
          numberWithCommas toString
            (header_total (sum_list (map amount (res_records res))) (res_decimals res)) @
          '' tokens lost / $'' @
          numberWithCommas toString (asDollar (formatTokenResult toString res)) @
          [CHR 0x0A] @ replicate 47 (CHR ''-'') @ [CHR 0x0A] @
          concat (map (record_line toString (the (res_ticker res))) (res_records res))"
    by (simp add: formatTokenResult_def sum_and_lines_eq Let_def)
  have B: "header_total raw d = js_divide (nearest_double (of_int raw)) (pow10_literal d)"
    by (simp add: header_total_def Number_of_BigInt_def)
  have C: "header_total (sum_list [1000000000000000001, 2000000000000000002]) (Num 18) = Num 3"
    using header_total_example by simp
  note D = header_total_from_raw_sum
  have E: "0 \<le> raw' \<and> raw' < 2 ^ 53 \<and> n \<le> 22 \<longrightarrow>
      header_total raw' (Num (of_nat n)) = nearest_double (of_int raw' / 10 ^ n)"
    using header_total_rounds_once [of raw' n] by blast
  from A B C D E show ?thesis by (intro conjI)
qed

theorem formatTokenResult_header_total_witness:
  "\<not> no_ticker (res_ticker example_result) \<and> res_price example_result \<noteq> Num (- 1) \<and>
   sum_list (map amount (res_records example_result)) = 3000000000000000003 \<and>
   asDollar (formatTokenResult (\<lambda>x. ''3'') example_result) = Num 3 \<and>
   resStr (formatTokenResult (\<lambda>x. ''3'') example_result)
     = ''TKN [0xToken]: 3 tokens lost / $3'' @ [CHR 0x0A] @ replicate 47 (CHR ''-'') @ [CHR 0x0A] @
       ''Contract 0xB => 3 TKN ( $2 )'' @ [CHR 0x0A] @
       ''Contract 0xA => 3 TKN ( $1 )'' @ [CHR 0x0A]"
proof -
  have h: "\<not> no_ticker (res_ticker example_result)" "res_price example_result \<noteq> Num (- 1)"
    by (simp_all add: example_result_def no_ticker_def)
  have s: "sum_list (map amount (res_records example_result)) = 3000000000000000003"
    by (simp add: example_result_def)
  note T = formatTokenResult_header_total [of example_result "\<lambda>x. ''3''" 0 NaN 1 0]
  have t: "header_total (sum_list [1000000000000000001, 2000000000000000002]) (Num 18) = Num 3"
    by (rule T [THEN conjunct2, THEN conjunct2, THEN conjunct1])
  note F = mp [OF T [THEN conjunct1] conjI [OF h]]
  have a: "asDollar (formatTokenResult (\<lambda>x. ''3'') example_result) = Num 3"
    using F [THEN conjunct1] t
    by (simp add: example_result_def js_times_def)
  have r: "resStr (formatTokenResult (\<lambda>x. ''3'') example_result)
     = ''TKN [0xToken]: 3 tokens lost / $3'' @ [CHR 0x0A] @ replicate 47 (CHR ''-'') @ [CHR 0x0A] @
       ''Contract 0xB => 3 TKN ( $2 )'' @ [CHR 0x0A] @
       ''Contract 0xA => 3 TKN ( $1 )'' @ [CHR 0x0A]"
    unfolding F [THEN conjunct2] a using t
    by (simp add: example_result_def record_line_def
        numberWithCommas_def nearest_double_1e_6 js_less_def is_digit_def)
  from h s a r show ?thesis by (intro conjI)
qed


subsection \<open>Defaults of the metadata\<close>












text \<open>
  A response with status 200 whose body is \<open>null\<close> is not caught by the \<open>try\<close> blocks of
  \<open>getTokenInfo\<close>: the scan of the token is rejected with a \<open>TypeError\<close> before any
  \<open>balanceOf\<close> call.
\<close>

lemma processOneToken_null_price_body:
  "processOneToken example_config example_env_null_body toString web3 example_heap 0
     ''0xToken'' es = (Rejected TypeError, [], example_heap)"
proof -
  have "getTokenInfo example_config example_env_null_body ''0xToken'' = Inl TypeError"
    by (simp add: getTokenInfo_def ticker_tries_def price_requests_def
        example_env_null_body_def example_env_def no_ticker_def)
  then show ?thesis by (simp add: processOneToken_def)
qed




end
